theory Spec2Isabelle
  imports Main
begin

section \<open>Errors\<close>

text \<open>
  The runtime raises \<open>BindingError\<close> (through \<open>throwBindingError\<close>), \<open>InternalError\<close>
  (through \<open>throwInternalError\<close>) and \<open>UnboundTypeError\<close>, each with a message.
  The names the specification uses (ArityError, AlreadyDeletedError, TypeMismatchError)
  are all \<open>BindingError\<close>s in the code, told apart by their message.
  \<open>TypeError\<close> and \<open>RangeError\<close> are the host language's own errors: for
  reading a property of \<open>undefined\<close> or calling \<open>undefined\<close>, and for a call
  stack that is used up.
\<close>

datatype error =
    BindingError string
  | InternalError string
  | UnboundTypeError string
  | TypeError
  | RangeError

section \<open>Strings\<close>

text \<open>\<open>Array.prototype.join\<close> on strings.\<close>

fun join :: "string \<Rightarrow> string list \<Rightarrow> string" where
  "join sep [] = []"
| "join sep [x] = x"
| "join sep (x # y # ys) = x @ sep @ join sep (y # ys)"

text \<open>A number as the host language prints it, and the character \<open>'\<close>.\<close>

function string_of_nat :: "nat \<Rightarrow> string" where
  "string_of_nat n =
     (if n < 10 then [''0123456789'' ! n]
      else string_of_nat (n div 10) @ [''0123456789'' ! (n mod 10)])"
  by pat_completeness auto
termination
  by (relation "measure id") auto

declare string_of_nat.simps [simp del]

definition quote :: string where
  "quote = [CHR 0x27]"

section \<open>Overload table\<close>

text \<open>
  A function object of the host: which function it is, its source text (what
  \<open>toString\<close> gives) and the two properties the registration code sets and reads,
  \<open>argCount\<close> and \<open>numArguments\<close> (\<open>None\<close> for \<open>undefined\<close>).
  \<open>overloadTable\<close> is an array used with the keys the code gives it: an index, or
  the property \<open>undefined\<close> when the key is an absent \<open>argCount\<close>. The table is
  kept newest first, so \<open>map_of\<close> reads the last value stored under a key.
  A public symbol is a function stored directly or the dispatcher that
  \<open>ensureOverloadTable\<close> puts in its place, which carries the table.
\<close>

record callable =
  function_id :: nat
  source_text :: string
  argCount :: "nat option"
  numArguments :: "nat option"

datatype table_key = Index nat | Undefined_key

fun key_of :: "nat option \<Rightarrow> table_key" where
  "key_of None = Undefined_key"
| "key_of (Some n) = Index n"

datatype symbol = Function callable | Dispatcher string "(table_key \<times> callable) list"

fun overloadTable :: "symbol \<Rightarrow> (table_key \<times> callable) list option" where
  "overloadTable (Function f) = None"
| "overloadTable (Dispatcher humanName table) = Some table"

text \<open>
  The text of the table inside a template string: the elements at the indices below
  the array's length joined by commas, an empty slot giving the empty string.
\<close>

fun array_length :: "(table_key \<times> callable) list \<Rightarrow> nat" where
  "array_length [] = 0"
| "array_length ((Index i, f) # table) = max (Suc i) (array_length table)"
| "array_length ((Undefined_key, f) # table) = array_length table"

definition table_toString :: "(table_key \<times> callable) list \<Rightarrow> string" where
  "table_toString table =
     join '',''
       (map (\<lambda>i. case map_of table (Index i) of None \<Rightarrow> [] | Some f \<Rightarrow> source_text f)
          [0..<array_length table])"

text \<open>
  \<open>ensureOverloadTable\<close> (lines 75-90), \<open>exposePublicSymbol\<close> (lines 104-125),
  on \<open>Module\<close> as a table from names to symbols. \<open>Module.hasOwnProperty(numArguments)\<close>
  asks for the property named by the number's text.
\<close>

definition ensureOverloadTable ::
    "(string \<Rightarrow> symbol option) \<Rightarrow> string \<Rightarrow> string \<Rightarrow> error + (string \<Rightarrow> symbol option)" where
  "ensureOverloadTable proto methodName humanName =
     (case proto methodName of
        None \<Rightarrow> Inl TypeError
      | Some (Dispatcher h table) \<Rightarrow> Inr proto
      | Some (Function prevFunc) \<Rightarrow>
          Inr (proto(methodName \<mapsto> Dispatcher humanName [(key_of (argCount prevFunc), prevFunc)])))"

definition exposePublicSymbol ::
    "(string \<Rightarrow> symbol option) \<Rightarrow> string \<Rightarrow> callable \<Rightarrow> nat option \<Rightarrow>
     (string \<Rightarrow> symbol option) \<times> (error + unit)" where
  "exposePublicSymbol Module name value numArguments' =
     (case Module name of
        Some existing \<Rightarrow>
          if numArguments' = None \<or>
             (case overloadTable existing of
                None \<Rightarrow> False
              | Some table \<Rightarrow> map_of table (key_of numArguments') \<noteq> None)
          then (Module, Inl (BindingError
                  (''Cannot register public name '' @ quote @ name @ quote @ '' twice'')))
          else
            (case ensureOverloadTable Module name name of
               Inl e \<Rightarrow> (Module, Inl e)
             | Inr Module1 \<Rightarrow>
                 if Module1 (string_of_nat (the numArguments')) \<noteq> None
                 then (Module1, Inl (BindingError
                         (''Cannot register multiple overloads of a function with the same number of arguments ('' @
                          string_of_nat (the numArguments') @ '')!'')))
                 else
                   (case Module1 name of
                      Some (Dispatcher h table) \<Rightarrow>
                        (Module1(name \<mapsto> Dispatcher h ((key_of numArguments', value) # table)),
                         Inr ())
                    | _ \<Rightarrow> (Module1, Inl TypeError)))
      | None \<Rightarrow>
          (Module(name \<mapsto> Function
             (if numArguments' \<noteq> None then value\<lparr>numArguments := numArguments'\<rparr> else value)),
           Inr ()))"

text \<open>
  Calling \<open>Module[name]\<close> with arguments: the function called, with the arguments
  it gets. The dispatcher is the function of lines 79-85.
\<close>

definition call_symbol ::
    "(string \<Rightarrow> symbol option) \<Rightarrow> string \<Rightarrow> nat list \<Rightarrow> error + (callable \<times> nat list)" where
  "call_symbol Module name arguments =
     (case Module name of
        None \<Rightarrow> Inl TypeError
      | Some (Function f) \<Rightarrow> Inr (f, arguments)
      | Some (Dispatcher humanName table) \<Rightarrow>
          (case map_of table (Index (length arguments)) of
             None \<Rightarrow>
               Inl (BindingError
                 (''Function '' @ quote @ humanName @ quote @
                  '' called with an invalid number of arguments ('' @
                  string_of_nat (length arguments) @ '') - expects one of ('' @
                  table_toString table @ '')!''))
           | Some f \<Rightarrow> Inr (f, arguments)))"

text \<open>
  Two registrations of \<open>f\<close>, with one and with two parameters, as
  \<open>_embind_register_function\<close> makes them (lines 1047-1049) while a type of each
  signature is still unbound: the callables are fresh functions, with no properties.
\<close>

definition stub1 :: callable where
  "stub1 = \<lparr>function_id = 1, source_text = ''function() { stub1 }'', argCount = None,
     numArguments = None\<rparr>"

definition stub2 :: callable where
  "stub2 = \<lparr>function_id = 2, source_text = ''function() { stub2 }'', argCount = None,
     numArguments = None\<rparr>"

definition Module_f1 :: "string \<Rightarrow> symbol option" where
  "Module_f1 = fst (exposePublicSymbol (\<lambda>k. None) ''f'' stub1 (Some 1))"

definition Module_f2 :: "string \<Rightarrow> symbol option" where
  "Module_f2 = fst (exposePublicSymbol Module_f1 ''f'' stub2 (Some 2))"

section \<open>Class hierarchy\<close>

text \<open>
  \<open>RegisteredClass\<close> (embind.js, lines 1797-1814). The base class is the object
  itself, fixed when the class is built, so the chain of base classes is finite.
  \<open>class_id\<close> stands for the identity of the object (the source compares classes
  with \<open>===\<close>): two classes are the same object exactly when they are equal here.
  \<open>upcast\<close> and \<open>downcast\<close> are native functions on addresses, \<open>None\<close> when
  the registration passed none; \<open>rawDestructor\<close> is the native destructor's function
  pointer.
\<close>

datatype RegisteredClass = RegisteredClass
  (class_id: nat)
  (name: string)
  (rawDestructor: nat)
  (baseClass: "RegisteredClass option")
  (upcast: "(nat \<Rightarrow> nat) option")
  (downcast: "(nat \<Rightarrow> nat) option")

lemma baseClass_size: "baseClass c = Some b \<Longrightarrow> size b < size c"
  by (cases c) simp

definition mismatch_message :: "RegisteredClass \<Rightarrow> RegisteredClass \<Rightarrow> string" where
  "mismatch_message desiredClass ptrClass =
     ''Expected null or instance of '' @ name desiredClass @
     '', got an instance of '' @ name ptrClass"

text \<open>
  \<open>upcastPointer\<close> (lines 2007-2016). When a class has an upcast function but no base
  class, \<open>ptrClass\<close> becomes \<open>undefined\<close> and the next test of the loop reads
  \<open>undefined.upcast\<close>: a \<open>TypeError\<close>.
\<close>

function upcastPointer :: "nat \<Rightarrow> RegisteredClass \<Rightarrow> RegisteredClass \<Rightarrow> error + nat" where
  "upcastPointer ptr ptrClass desiredClass =
     (if ptrClass = desiredClass then Inr ptr
      else (case upcast ptrClass of
              None \<Rightarrow> Inl (BindingError (mismatch_message desiredClass ptrClass))
            | Some up \<Rightarrow>
                (case baseClass ptrClass of
                   None \<Rightarrow> Inl TypeError
                 | Some b \<Rightarrow> upcastPointer (up ptr) b desiredClass)))"
  by pat_completeness auto
termination
  by (relation "measure (\<lambda>(p, c, d). size c)") (auto simp: baseClass_size)

text \<open>
  \<open>downcastPointer\<close> (lines 1991-2004). \<open>Inr None\<close> is the source's \<open>null\<close>,
  "no conversion". Calling a missing \<open>downcast\<close> is a \<open>TypeError\<close>.
\<close>

function downcastPointer :: "nat \<Rightarrow> RegisteredClass \<Rightarrow> RegisteredClass \<Rightarrow> error + nat option" where
  "downcastPointer ptr ptrClass desiredClass =
     (if ptrClass = desiredClass then Inr (Some ptr)
      else (case baseClass desiredClass of
              None \<Rightarrow> Inr None
            | Some b \<Rightarrow>
                (case downcastPointer ptr ptrClass b of
                   Inl e \<Rightarrow> Inl e
                 | Inr None \<Rightarrow> Inr None
                 | Inr (Some rv) \<Rightarrow>
                     (case downcast desiredClass of
                        None \<Rightarrow> Inl TypeError
                      | Some down \<Rightarrow> Inr (Some (down rv))))))"
  by pat_completeness auto
termination
  by (relation "measure (\<lambda>(p, c, d). size d)") (auto simp: baseClass_size)

text \<open>The inheritance chain of a class: the class, its base, and so on to the root.\<close>

function chain :: "RegisteredClass \<Rightarrow> RegisteredClass list" where
  "chain c = c # (case baseClass c of None \<Rightarrow> [] | Some b \<Rightarrow> chain b)"
  by pat_completeness auto
termination
  by (relation "measure size") (auto simp: baseClass_size)

text \<open>
  A class is registered with an upcast function exactly when it has a base class
  (\<open>_embind_register_class\<close> receives both from the native side).
\<close>

definition upcast_wf :: "RegisteredClass \<Rightarrow> bool" where
  "upcast_wf c = (list_all (\<lambda>k. (upcast k = None) = (baseClass k = None)) (chain c))"

definition apply_upcast :: "RegisteredClass \<Rightarrow> nat \<Rightarrow> nat" where
  "apply_upcast c p = (case upcast c of None \<Rightarrow> p | Some up \<Rightarrow> up p)"

definition apply_downcast :: "RegisteredClass \<Rightarrow> nat \<Rightarrow> nat" where
  "apply_downcast c p = (case downcast c of None \<Rightarrow> p | Some down \<Rightarrow> down p)"

text \<open>
  A small hierarchy to run the functions on: \<open>Derived\<close> extends \<open>Base\<close>, its
  instances holding the \<open>Base\<close> part at offset 8; \<open>Other\<close> is unrelated.
\<close>

definition Base :: RegisteredClass where
  "Base = RegisteredClass 1 ''Base'' 100 None None None"

definition Derived :: RegisteredClass where
  "Derived = RegisteredClass 2 ''Derived'' 200 (Some Base) (Some (\<lambda>p. p + 8)) (Some (\<lambda>p. p - 8))"

definition Other :: RegisteredClass where
  "Other = RegisteredClass 3 ''Other'' 300 None None None"

declare upcastPointer.simps [simp del] downcastPointer.simps [simp del] chain.simps [simp del]

section \<open>Handles and ownership\<close>

text \<open>
  \<open>RegisteredPointer\<close> (lines 1422-1466), with the fields the functions below read:
  the class it points to and, for a smart pointer type, the native destructor of the
  smart pointer (\<open>rawDestructor\<close>, \<open>undefined\<close> for a raw pointer type).
\<close>

record RegisteredPointer =
  pointer_name :: string
  registeredClass :: RegisteredClass
  pointer_rawDestructor :: "nat option"

text \<open>
  The internal record \<open>$$\<close> of a handle (lines 1816-1826). An address is a number or
  \<open>undefined\<close> (\<open>None\<close>); \<open>count\<close> is a reference to the shared cell
  \<open>{value: n}\<close>, so that clones alias one cell. \<open>deleteScheduled\<close> and
  \<open>preservePointerOnDelete\<close> are only ever tested for truth: \<open>undefined\<close> is
  \<open>False\<close>.
\<close>

record handle_record =
  ptr :: "nat option"
  ptrType :: "RegisteredPointer option"
  smartPtr :: "nat option"
  smartPtrType :: "RegisteredPointer option"
  count :: "nat option"
  deleteScheduled :: bool
  preservePointerOnDelete :: bool

text \<open>
  A handle object: its prototype and its \<open>$$\<close> record (field \<open>dd\<close>). The instance
  prototype of every registered class inherits from \<open>ClassHandle.prototype\<close>
  (lines 1872-1895).
\<close>

datatype prototype = InstancePrototype nat | OtherPrototype nat

fun instanceof_ClassHandle :: "prototype \<Rightarrow> bool" where
  "instanceof_ClassHandle (InstancePrototype c) = True"
| "instanceof_ClassHandle (OtherPrototype p) = False"

record handle =
  proto :: prototype
  dd :: handle_record

text \<open>
  A call of a native destructor: the function pointer and its argument. The runtime
  cannot see what the native code does; what it does to the host is given by
  \<open>reenter\<close>, the handles on which the destructor, while it runs, calls back
  \<open>deleteLater\<close> (none for a destructor that does not call back).
\<close>

datatype native_call = NativeCall nat nat

type_synonym reentry = "native_call \<Rightarrow> nat list"

text \<open>
  The state of the runtime: the handle objects and the count cells (both by
  reference: an index into the list), \<open>deletionQueue\<close>, \<open>delayFunction\<close> (the
  scheduler hook, \<open>None\<close> when not set), the native destructor calls made so far and
  the flushes that hooks have kept to run later.
\<close>

record state =
  handles :: "handle list"
  counts :: "int list"
  deletionQueue :: "nat list"
  delayFunction :: "nat option"
  destructorCalls :: "native_call list"
  delayCalls :: "nat list"

text \<open>
  The scheduler hook is host code. \<open>delayFunction\<close> says which hook is set; what
  a hook does when it is called with \<open>flushPendingDeletes\<close> is a parameter of the
  model: \<open>hook f s\<close> is the state in which the call of hook \<open>f\<close>, made in
  state \<open>s\<close>, returns or throws. A hook may keep the flush for later, as
  \<open>deferring_hook\<close> does, or run it before it returns. A hook \<open>defers\<close>
  when its call leaves the handles, the counts, the queue and the native side alone.
\<close>

type_synonym scheduler = "nat \<Rightarrow> state \<Rightarrow> state \<times> (error + unit)"

definition deferring_hook :: scheduler where
  "deferring_hook f s = (s\<lparr>delayCalls := delayCalls s @ [f]\<rparr>, Inr ())"

definition defers :: "scheduler \<Rightarrow> bool" where
  "defers hook =
     (\<forall>f s. handles (fst (hook f s)) = handles s \<and> counts (fst (hook f s)) = counts s \<and>
            deletionQueue (fst (hook f s)) = deletionQueue s \<and>
            destructorCalls (fst (hook f s)) = destructorCalls s)"

text \<open>Truth of an address: \<open>undefined\<close> and \<open>0\<close> are false.\<close>

definition truthy :: "nat option \<Rightarrow> bool" where
  "truthy p = (case p of None \<Rightarrow> False | Some n \<Rightarrow> n \<noteq> 0)"

text \<open>An address passed to native code: \<open>undefined\<close> arrives as \<open>0\<close>.\<close>

definition to_number :: "nat option \<Rightarrow> nat" where
  "to_number p = (case p of None \<Rightarrow> 0 | Some n \<Rightarrow> n)"

definition update_dd :: "state \<Rightarrow> nat \<Rightarrow> (handle_record \<Rightarrow> handle_record) \<Rightarrow> state" where
  "update_dd s h f = s\<lparr>handles := (handles s)[h := (handles s ! h)\<lparr>dd := f (dd (handles s ! h))\<rparr>]\<rparr>"

text \<open>\<open>throwInstanceAlreadyDeleted\<close> (lines 1705-1710): the error it throws.\<close>

definition throwInstanceAlreadyDeleted :: "handle_record \<Rightarrow> error" where
  "throwInstanceAlreadyDeleted r =
     (case ptrType r of
        None \<Rightarrow> TypeError
      | Some t \<Rightarrow> BindingError (name (registeredClass t) @ '' instance already deleted''))"

text \<open>
  \<open>makeClassHandle\<close> (lines 1644-1659). The finalizer that \<open>attachFinalizer\<close>
  registers runs at the garbage collector's discretion and is not part of the model.
\<close>

definition makeClassHandle :: "state \<Rightarrow> prototype \<Rightarrow> handle_record \<Rightarrow> state \<times> (error + nat)" where
  "makeClassHandle s prototype record =
     (if ptrType record = None \<or> \<not> truthy (ptr record) then
        (s, Inl (InternalError ''makeClassHandle requires ptr and ptrType''))
      else
        let hasSmartPtrType = (smartPtrType record \<noteq> None);
            hasSmartPtr = truthy (smartPtr record)
        in if hasSmartPtrType \<noteq> hasSmartPtr then
             (s, Inl (InternalError ''Both smartPtrType and smartPtr must be specified''))
           else
             (s\<lparr>counts := counts s @ [1],
                handles := handles s @
                  [\<lparr>proto = prototype, dd = record\<lparr>count := Some (length (counts s))\<rparr>\<rparr>]\<rparr>,
              Inr (length (handles s))))"

text \<open>\<open>shallowCopyInternalPointer\<close> (lines 1816-1826).\<close>

definition shallowCopyInternalPointer :: "handle_record \<Rightarrow> handle_record" where
  "shallowCopyInternalPointer o' =
     \<lparr>ptr = ptr o', ptrType = ptrType o', smartPtr = smartPtr o',
      smartPtrType = smartPtrType o', count = count o',
      deleteScheduled = deleteScheduled o',
      preservePointerOnDelete = preservePointerOnDelete o'\<rparr>"

text \<open>
  \<open>$$.count.value += 1\<close> and \<open>-= 1\<close>: a \<open>TypeError\<close> when the record has no
  count cell.
\<close>

definition add_count :: "state \<Rightarrow> handle_record \<Rightarrow> int \<Rightarrow> state \<times> (error + int)" where
  "add_count s r d =
     (case count r of
        None \<Rightarrow> (s, Inl TypeError)
      | Some c \<Rightarrow>
          if c < length (counts s)
          then (s\<lparr>counts := (counts s)[c := counts s ! c + d]\<rparr>, Inr (counts s ! c + d))
          else (s, Inl TypeError))"

text \<open>
  \<open>ClassHandle_clone\<close> (lines 1713-1732). A handle is named by its index in
  \<open>handles\<close>; an index that names no object is a \<open>TypeError\<close>.
\<close>

definition ClassHandle_clone :: "state \<Rightarrow> nat \<Rightarrow> state \<times> (error + nat)" where
  "ClassHandle_clone s this =
     (if length (handles s) \<le> this then (s, Inl TypeError)
      else
        let h = handles s ! this in
        if \<not> truthy (ptr (dd h)) then (s, Inl (throwInstanceAlreadyDeleted (dd h)))
        else if preservePointerOnDelete (dd h) then
          (case add_count s (dd h) 1 of
             (s1, Inl e) \<Rightarrow> (s1, Inl e)
           | (s1, Inr v) \<Rightarrow> (s1, Inr this))
        else
          let clone = length (handles s);
              s1 = s\<lparr>handles := handles s @
                     [\<lparr>proto = proto h, dd = shallowCopyInternalPointer (dd h)\<rparr>]\<rparr>
          in (case add_count s1 (dd (handles s1 ! clone)) 1 of
                (s2, Inl e) \<Rightarrow> (s2, Inl e)
              | (s2, Inr v) \<Rightarrow>
                  (update_dd s2 clone (\<lambda>r. r\<lparr>deleteScheduled := False\<rparr>), Inr clone)))"

text \<open>
  \<open>if (deletionQueue.length === 1 && delayFunction) delayFunction(flushPendingDeletes)\<close>
  (lines 1770-1772): the hook is called, and runs, before \<open>deleteLater\<close> goes on.
\<close>

definition call_delayFunction :: "scheduler \<Rightarrow> state \<Rightarrow> state \<times> (error + unit)" where
  "call_delayFunction hook s =
     (if length (deletionQueue s) = 1
      then (case delayFunction s of
              None \<Rightarrow> (s, Inr ())
            | Some f \<Rightarrow> hook f s)
      else (s, Inr ()))"

text \<open>
  \<open>ClassHandle_deleteLater\<close> (lines 1762-1775): the handle is pushed, the hook is
  called, and \<open>deleteScheduled\<close> is set when the hook has returned.
\<close>

definition ClassHandle_deleteLater :: "scheduler \<Rightarrow> state \<Rightarrow> nat \<Rightarrow> state \<times> (error + nat)" where
  "ClassHandle_deleteLater hook s this =
     (if length (handles s) \<le> this then (s, Inl TypeError)
      else
        let r = dd (handles s ! this) in
        if \<not> truthy (ptr r) then (s, Inl (throwInstanceAlreadyDeleted r))
        else if deleteScheduled r \<and> \<not> preservePointerOnDelete r then
          (s, Inl (BindingError ''Object already scheduled for deletion''))
        else
          (case call_delayFunction hook (s\<lparr>deletionQueue := deletionQueue s @ [this]\<rparr>) of
             (s1, Inl e) \<Rightarrow> (s1, Inl e)
           | (s1, Inr u) \<Rightarrow>
               (update_dd s1 this (\<lambda>r. r\<lparr>deleteScheduled := True\<rparr>), Inr this)))"

text \<open>The \<open>deleteLater\<close> calls a native destructor makes while it runs, in order.\<close>

fun deleteLater_each :: "scheduler \<Rightarrow> state \<Rightarrow> nat list \<Rightarrow> state \<times> (error + unit)" where
  "deleteLater_each hook s [] = (s, Inr ())"
| "deleteLater_each hook s (h # hs) =
     (case ClassHandle_deleteLater hook s h of
        (s1, Inl e) \<Rightarrow> (s1, Inl e)
      | (s1, Inr v) \<Rightarrow> deleteLater_each hook s1 hs)"

text \<open>
  \<open>runDestructor\<close> (lines 1576-1582): \<open>destructor_call\<close> is the native call it
  makes, \<open>runDestructor\<close> the call with its effect on the state.
\<close>

definition destructor_call :: "handle_record \<Rightarrow> error + native_call" where
  "destructor_call r =
     (if truthy (smartPtr r) then
        (case smartPtrType r of
           None \<Rightarrow> Inl TypeError
         | Some t \<Rightarrow>
             (case pointer_rawDestructor t of
                None \<Rightarrow> Inl TypeError
              | Some d \<Rightarrow> Inr (NativeCall d (to_number (smartPtr r)))))
      else
        (case ptrType r of
           None \<Rightarrow> Inl TypeError
         | Some t \<Rightarrow> Inr (NativeCall (rawDestructor (registeredClass t)) (to_number (ptr r)))))"

definition runDestructor ::
    "scheduler \<Rightarrow> reentry \<Rightarrow> state \<Rightarrow> handle_record \<Rightarrow> state \<times> (error + unit)" where
  "runDestructor hook reenter s r =
     (case destructor_call r of
        Inl e \<Rightarrow> (s, Inl e)
      | Inr c \<Rightarrow>
          deleteLater_each hook (s\<lparr>destructorCalls := destructorCalls s @ [c]\<rparr>) (reenter c))"

text \<open>\<open>releaseClassHandle\<close> (lines 1585-1591).\<close>

definition releaseClassHandle ::
    "scheduler \<Rightarrow> reentry \<Rightarrow> state \<Rightarrow> handle_record \<Rightarrow> state \<times> (error + unit)" where
  "releaseClassHandle hook reenter s r =
     (case add_count s r (- 1) of
        (s1, Inl e) \<Rightarrow> (s1, Inl e)
      | (s1, Inr v) \<Rightarrow>
          let toDelete = (0 = v)
          in if toDelete then runDestructor hook reenter s1 r else (s1, Inr ()))"

text \<open>
  \<open>ClassHandle_delete\<close> (lines 1736-1752). \<open>detachFinalizer\<close> only touches the
  finalization registry.
\<close>

definition ClassHandle_delete ::
    "scheduler \<Rightarrow> reentry \<Rightarrow> state \<Rightarrow> nat \<Rightarrow> state \<times> (error + unit)" where
  "ClassHandle_delete hook reenter s this =
     (if length (handles s) \<le> this then (s, Inl TypeError)
      else
        let r = dd (handles s ! this) in
        if \<not> truthy (ptr r) then (s, Inl (throwInstanceAlreadyDeleted r))
        else if deleteScheduled r \<and> \<not> preservePointerOnDelete r then
          (s, Inl (BindingError ''Object already scheduled for deletion''))
        else
          (case releaseClassHandle hook reenter s r of
             (s1, Inl e) \<Rightarrow> (s1, Inl e)
           | (s1, Inr v) \<Rightarrow>
               (if \<not> preservePointerOnDelete (dd (handles s1 ! this))
                then update_dd s1 this (\<lambda>r. r\<lparr>smartPtr := None, ptr := None\<rparr>)
                else s1,
                Inr ())))"

text \<open>
  The loop \<open>while (class.baseClass) { ptr = class.upcast(ptr); class = class.baseClass; }\<close>
  of \<open>ClassHandle_isAliasOf\<close> (lines 1691-1699): the root class and the address
  there. Calling a missing \<open>upcast\<close> is a \<open>TypeError\<close>.
\<close>

function upcast_to_root :: "RegisteredClass \<Rightarrow> nat option \<Rightarrow> error + (RegisteredClass \<times> nat option)" where
  "upcast_to_root c p =
     (case baseClass c of
        None \<Rightarrow> Inr (c, p)
      | Some b \<Rightarrow>
          (case upcast c of
             None \<Rightarrow> Inl TypeError
           | Some up \<Rightarrow> upcast_to_root b (Some (up (to_number p)))))"
  by pat_completeness auto
termination
  by (relation "measure (\<lambda>(c, p). size c)") (auto simp: baseClass_size)

declare upcast_to_root.simps [simp del]

text \<open>\<open>ClassHandle_isAliasOf\<close> (lines 1678-1702).\<close>

definition ClassHandle_isAliasOf :: "state \<Rightarrow> nat \<Rightarrow> nat \<Rightarrow> error + bool" where
  "ClassHandle_isAliasOf s this other =
     (if length (handles s) \<le> this \<or> length (handles s) \<le> other then Inl TypeError
      else if \<not> instanceof_ClassHandle (proto (handles s ! this)) then Inr False
      else if \<not> instanceof_ClassHandle (proto (handles s ! other)) then Inr False
      else
        (case ptrType (dd (handles s ! this)) of
           None \<Rightarrow> Inl TypeError
         | Some leftType \<Rightarrow>
             (case ptrType (dd (handles s ! other)) of
                None \<Rightarrow> Inl TypeError
              | Some rightType \<Rightarrow>
                  (case upcast_to_root (registeredClass leftType) (ptr (dd (handles s ! this))) of
                     Inl e \<Rightarrow> Inl e
                   | Inr (leftClass, left) \<Rightarrow>
                       (case upcast_to_root (registeredClass rightType)
                               (ptr (dd (handles s ! other))) of
                          Inl e \<Rightarrow> Inl e
                        | Inr (rightClass, right) \<Rightarrow>
                            Inr (leftClass = rightClass \<and> left = right))))))"

subsection \<open>The deletion queue\<close>

text \<open>
  \<open>flushPendingDeletes\<close> (lines 1778-1784). Each turn of the loop reads the queue as
  it is then, so what a destructor pushed during the last \<open>delete\<close> is popped next.
  The loop has no bound of its own and a hook may do anything to the state, so the
  result is an option: \<open>None\<close> when the loop never ends.
\<close>

partial_function (option) flushPendingDeletes ::
    "scheduler \<Rightarrow> reentry \<Rightarrow> state \<Rightarrow> (state \<times> (error + unit)) option" where
  "flushPendingDeletes hook reenter s =
     (if deletionQueue s = [] then Some (s, Inr ())
      else
        let obj = last (deletionQueue s);
            s1 = s\<lparr>deletionQueue := butlast (deletionQueue s)\<rparr>
        in if length (handles s1) \<le> obj then Some (s1, Inl TypeError)
           else
             (case ClassHandle_delete hook reenter
                     (update_dd s1 obj (\<lambda>r. r\<lparr>deleteScheduled := False\<rparr>)) obj of
                (s2, Inl e) \<Rightarrow> Some (s2, Inl e)
              | (s2, Inr v) \<Rightarrow> flushPendingDeletes hook reenter s2))"

text \<open>
  A hook that runs the flush before it returns, as
  \<open>setDelayFunction(flush => flush())\<close> sets; a hook called again inside that flush
  defers.
\<close>

definition flush_at_once :: "reentry \<Rightarrow> scheduler" where
  "flush_at_once reenter f s =
     (case flushPendingDeletes deferring_hook reenter s of
        None \<Rightarrow> (s, Inr ())
      | Some result \<Rightarrow> result)"

text \<open>
  The references still owed: the sum of the positive counts. A \<open>delete\<close> that runs a
  destructor lowers it; any other \<open>delete\<close> leaves the queue as it found it.
\<close>

definition owed :: "state \<Rightarrow> nat" where
  "owed s = sum_list (map nat (counts s))"

subsection \<open>Example states\<close>

text \<open>
  States to run the functions on: a raw pointer handle to a \<open>Derived\<close> instance at
  address 16, made by \<open>makeClassHandle\<close> (\<open>one_handle\<close>); the same after
  \<open>deleteLater\<close> (\<open>scheduled_handle\<close>); the same with
  \<open>preservePointerOnDelete\<close> set, as \<open>__construct\<close> does (line 2348).
\<close>

definition DerivedPtr :: RegisteredPointer where
  "DerivedPtr = \<lparr>pointer_name = ''Derived*'', registeredClass = Derived, pointer_rawDestructor = None\<rparr>"

definition SharedDerived :: RegisteredPointer where
  "SharedDerived = \<lparr>pointer_name = ''shared_ptr<Derived>'', registeredClass = Derived,
     pointer_rawDestructor = Some 900\<rparr>"

definition raw_record :: handle_record where
  "raw_record = \<lparr>ptr = Some 16, ptrType = Some DerivedPtr, smartPtr = None, smartPtrType = None,
     count = None, deleteScheduled = False, preservePointerOnDelete = False\<rparr>"

definition smart_record :: handle_record where
  "smart_record = \<lparr>ptr = Some 32, ptrType = Some DerivedPtr, smartPtr = Some 64,
     smartPtrType = Some SharedDerived, count = None, deleteScheduled = False,
     preservePointerOnDelete = False\<rparr>"

definition empty_state :: state where
  "empty_state = \<lparr>handles = [], counts = [], deletionQueue = [], delayFunction = Some 7,
     destructorCalls = [], delayCalls = []\<rparr>"

definition no_reentry :: reentry where
  "no_reentry c = []"

definition one_handle :: state where
  "one_handle = fst (makeClassHandle empty_state (InstancePrototype 2) raw_record)"



text \<open>A handle with its \<open>deleteScheduled\<close> flag put down: what \<open>deleteLater\<close> leaves alone.\<close>

definition unscheduled :: "handle \<Rightarrow> handle" where
  "unscheduled h = h\<lparr>dd := (dd h)\<lparr>deleteScheduled := False\<rparr>\<rparr>"

text \<open>
  The handles marked \<open>deleteScheduled\<close>, and the invariant that each of them is in
  the queue.
\<close>

definition pending :: "state \<Rightarrow> nat list" where
  "pending s = filter (\<lambda>h. deleteScheduled (dd (handles s ! h))) [0..<length (handles s)]"

definition pending_queued :: "state \<Rightarrow> bool" where
  "pending_queued s = list_all (\<lambda>h. h \<in> set (deletionQueue s)) (pending s)"

text \<open>
  Two handles, the first queued by \<open>deleteLater\<close>, and a native side where the
  destructor of the first calls \<open>deleteLater\<close> on the second.
\<close>

definition two_handles :: state where
  "two_handles = fst (makeClassHandle one_handle (InstancePrototype 2) smart_record)"

definition queued_first :: state where
  "queued_first = fst (ClassHandle_deleteLater deferring_hook two_handles 0)"

definition pushes_second :: reentry where
  "pushes_second c = (if c = NativeCall 200 16 then [1] else [])"


section \<open>Unbound types\<close>

text \<open>
  \<open>throwUnboundTypeError\<close> (lines 50-70). \<open>registeredTypes\<close> and
  \<open>typeDependencies\<close> are the registry's tables (declared in embind_shared.js),
  taken as parameters: which ids have a descriptor, and the dependency list recorded for
  an id. \<open>visit\<close> is the inner function with its two variables \<open>seen\<close> and
  \<open>unboundTypes\<close> passed along, \<open>forEach_visit\<close> is \<open>forEach(visit)\<close>. The
  recursion of the source has no bound of its own; the call stack of the host has one.
  The functions take the depth of nested calls the host allows: \<open>None\<close> says the
  walk needs more, and the host then throws \<open>RangeError\<close>.
\<close>

fun visit :: "nat \<Rightarrow> (nat \<Rightarrow> bool) \<Rightarrow> (nat \<Rightarrow> nat list option) \<Rightarrow> nat \<Rightarrow>
    nat set \<times> nat list \<Rightarrow> (nat set \<times> nat list) option"
and forEach_visit :: "nat \<Rightarrow> (nat \<Rightarrow> bool) \<Rightarrow> (nat \<Rightarrow> nat list option) \<Rightarrow> nat list \<Rightarrow>
    nat set \<times> nat list \<Rightarrow> (nat set \<times> nat list) option" where
  "visit 0 registeredTypes typeDependencies t w = None"
| "visit (Suc depth) registeredTypes typeDependencies t (seen, unboundTypes) =
     (if t \<in> seen then Some (seen, unboundTypes)
      else if registeredTypes t then Some (seen, unboundTypes)
      else (case typeDependencies t of
              Some ds \<Rightarrow> forEach_visit depth registeredTypes typeDependencies ds (seen, unboundTypes)
            | None \<Rightarrow> Some (insert t seen, unboundTypes @ [t])))"
| "forEach_visit depth registeredTypes typeDependencies [] w = Some w"
| "forEach_visit depth registeredTypes typeDependencies (d # ds) w =
     (case visit depth registeredTypes typeDependencies d w of
        None \<Rightarrow> None
      | Some w' \<Rightarrow> forEach_visit depth registeredTypes typeDependencies ds w')"

text \<open>\<open>throwUnboundTypeError\<close>: the error it throws.\<close>

definition throwUnboundTypeError :: "nat \<Rightarrow> (nat \<Rightarrow> bool) \<Rightarrow> (nat \<Rightarrow> nat list option) \<Rightarrow>
    (nat \<Rightarrow> string) \<Rightarrow> string \<Rightarrow> nat list \<Rightarrow> error" where
  "throwUnboundTypeError depth registeredTypes typeDependencies getTypeName message types =
     (case forEach_visit depth registeredTypes typeDependencies types ({}, []) of
        None \<Rightarrow> RangeError
      | Some (seen, unboundTypes) \<Rightarrow>
          UnboundTypeError (message @ '': '' @ join '', '' (map getTypeName unboundTypes)))"

text \<open>
  What the walk finds. An id \<open>reaches\<close> another through recorded dependencies of
  unregistered ids; a leaf is an unregistered id with no recorded dependencies. A graph
  is \<open>ranked\<close> when the dependencies of unregistered ids go down a rank, that is,
  when it has no cycle among them. An id is \<open>reachable\<close> from another through
  recorded dependencies of any ids, registered or not.
\<close>

inductive reachable :: "(nat \<Rightarrow> nat list option) \<Rightarrow> nat \<Rightarrow> nat \<Rightarrow> bool"
  for typeDependencies where
  start: "reachable typeDependencies t t"
| step: "typeDependencies t = Some ds \<Longrightarrow> d \<in> set ds \<Longrightarrow>
     reachable typeDependencies d l \<Longrightarrow> reachable typeDependencies t l"

inductive reaches :: "(nat \<Rightarrow> bool) \<Rightarrow> (nat \<Rightarrow> nat list option) \<Rightarrow> nat \<Rightarrow> nat \<Rightarrow> bool"
  for registeredTypes typeDependencies where
  here: "reaches registeredTypes typeDependencies t t"
| through: "\<not> registeredTypes t \<Longrightarrow> typeDependencies t = Some ds \<Longrightarrow> d \<in> set ds \<Longrightarrow>
     reaches registeredTypes typeDependencies d l \<Longrightarrow>
     reaches registeredTypes typeDependencies t l"

definition leaf :: "(nat \<Rightarrow> bool) \<Rightarrow> (nat \<Rightarrow> nat list option) \<Rightarrow> nat \<Rightarrow> bool" where
  "leaf registeredTypes typeDependencies l = (\<not> registeredTypes l \<and> typeDependencies l = None)"

definition unbound_leaves :: "(nat \<Rightarrow> bool) \<Rightarrow> (nat \<Rightarrow> nat list option) \<Rightarrow> nat list \<Rightarrow> nat set" where
  "unbound_leaves registeredTypes typeDependencies types =
     {l. leaf registeredTypes typeDependencies l \<and>
         (\<exists>t \<in> set types. reaches registeredTypes typeDependencies t l)}"

definition ranked :: "(nat \<Rightarrow> bool) \<Rightarrow> (nat \<Rightarrow> nat list option) \<Rightarrow> (nat \<Rightarrow> nat) \<Rightarrow> bool" where
  "ranked registeredTypes typeDependencies rank =
     (\<forall>t ds d. \<not> registeredTypes t \<and> typeDependencies t = Some ds \<and> d \<in> set ds \<longrightarrow>
        rank d < rank t)"

definition walk_inv :: "(nat \<Rightarrow> bool) \<Rightarrow> (nat \<Rightarrow> nat list option) \<Rightarrow> nat set \<times> nat list \<Rightarrow> bool" where
  "walk_inv reg deps w = (fst w = set (snd w) \<and> distinct (snd w) \<and> list_all (leaf reg deps) (snd w))"

text \<open>
  A registry where 10 depends on 11 and 12, and 11 on 12, 13 and 14, with only 13
  registered; one where 21 and 22 depend on each other; and one where 31, registered,
  has the recorded dependency 32, which is not.
\<close>

definition example_registered :: "nat \<Rightarrow> bool" where
  "example_registered t = (t = 13)"

definition example_dependencies :: "nat \<Rightarrow> nat list option" where
  "example_dependencies t =
     (if t = 10 then Some [11, 12] else if t = 11 then Some [12, 13, 14] else None)"

definition example_rank :: "nat \<Rightarrow> nat" where
  "example_rank t = (if t = 10 then 2 else if t = 11 then 1 else 0)"

definition example_name :: "nat \<Rightarrow> string" where
  "example_name t = (if t = 12 then ''B'' else if t = 14 then ''C'' else ''A'')"

definition nothing_registered :: "nat \<Rightarrow> bool" where
  "nothing_registered t = False"

definition cyclic_dependencies :: "nat \<Rightarrow> nat list option" where
  "cyclic_dependencies t = (if t = 21 then Some [22] else if t = 22 then Some [21] else None)"

definition parent_registered :: "nat \<Rightarrow> bool" where
  "parent_registered t = (t = 31)"

definition parent_dependencies :: "nat \<Rightarrow> nat list option" where
  "parent_dependencies t = (if t = 31 then Some [32] else None)"

section \<open>Invoker factory\<close>

text \<open>
  A type descriptor, with what the invoker reads: its name, \<open>toWireType\<close>,
  \<open>fromWireType\<close> and \<open>destructorFunction\<close>, which is \<open>undefined\<close> (the
  destructors are only known at run time), \<open>null\<close> (nothing to destroy) or a native
  function. Host values and wire values are numbers. \<open>toWireType(destructors, v)\<close>
  throws or gives the wire value and the \<open>(destructor, argument)\<close> pairs it has pushed
  on \<open>destructors\<close>.
\<close>

datatype destructor_property = Destructor_undefined | Destructor_null | Destructor_function nat

record TypeDescriptor =
  type_name :: string
  toWireType :: "nat \<Rightarrow> error + nat \<times> (nat \<times> nat) list"
  fromWireType :: "nat \<Rightarrow> error + nat"
  destructorFunction :: destructor_property

text \<open>
  What a call of an invoker does, in order: a conversion of an argument (its place in
  \<open>argTypes\<close> and the host value), the native call (the target function and the wire
  arguments), a destructor call, the conversion of the return value.
\<close>

datatype call_event =
    ToWireType nat nat
  | Invoke nat "nat list"
  | Destructor nat nat
  | FromWireType nat

text \<open>
  \<open>runDestructors\<close> (lines 761-767), on the list of pairs: the pair pushed last is
  popped and called first.
\<close>

function runDestructors :: "(nat \<times> nat) list \<Rightarrow> call_event list \<Rightarrow> call_event list" where
  "runDestructors destructors trace =
     (if destructors = [] then trace
      else runDestructors (butlast destructors)
             (trace @ [Destructor (fst (last destructors)) (snd (last destructors))]))"
  by pat_completeness auto
termination
  by (relation "measure (\<lambda>(ds, l). length ds)") auto

declare runDestructors.simps [simp del]

text \<open>
  The arrays of lines 850-852. Without code generation (\<open>DYNAMIC_EXECUTION == 0\<close>)
  they are allocated once, when the invoker is built, and every call of the invoker
  works on them. The generated function of the other branch has none: its wire values
  and its \<open>destructors\<close> are variables of the call.
\<close>

record arrays =
  argsWired :: "nat list"
  invokerFuncArgs :: "nat list"
  destructors :: "(nat \<times> nat) list"

text \<open>
  \<open>cppInvokerFunc\<close> is native: called with the target function and the wire
  arguments, it returns a wire value or throws. While it runs it may call back into the
  host, and the host may call this very invoker again. So, for the arrays of the invoker
  as they are when the native call starts, \<open>cppInvokerFunc\<close> gives the arrays as
  they are when it is over, the events of the calls made in between, and its result. A
  native function that \<open>keeps_arrays\<close> leaves the arrays alone: no call of the
  invoker happens while it runs.
\<close>

type_synonym native_function =
  "nat list \<Rightarrow> arrays \<Rightarrow> arrays \<times> call_event list \<times> (error + nat)"

definition keeps_arrays :: "native_function \<Rightarrow> bool" where
  "keeps_arrays f = (\<forall>args a. fst (f args a) = a)"

text \<open>
  The function \<open>craftInvokerFunction\<close> returns (lines 853-907, or the function
  generated by lines 909-1001), as the values it closes over. \<open>dynamicExecution\<close>
  is the build setting \<open>DYNAMIC_EXECUTION\<close>, \<open>craftArguments\<close> the number of
  arguments \<open>craftInvokerFunction\<close> was itself called with (5 or 6: \<open>isAsync\<close> is
  optional), which the generated text of line 919 prints.
\<close>

record invoker =
  humanName :: string
  argTypes :: "TypeDescriptor option list"
  isClassMethodFunc :: bool
  needsDestructorStack :: bool
  returns :: bool
  expectedArgCount :: nat
  cppInvokerFunc :: native_function
  cppTargetFunc :: nat
  dynamicExecution :: bool
  craftArguments :: nat

text \<open>
  \<open>craftInvokerFunction\<close> (lines 806-852 and 909-947): the checks and the values
  computed when the invoker is built. \<open>argTypes[0].name\<close> of a \<open>null\<close> return
  type is a \<open>TypeError\<close>, and so is, when the text of the function is generated,
  \<open>argTypes[i+2].name\<close> of a \<open>null\<close> parameter type (line 944).
\<close>

definition craftInvokerFunction ::
    "bool \<Rightarrow> nat \<Rightarrow> string \<Rightarrow> TypeDescriptor option list \<Rightarrow> TypeDescriptor option \<Rightarrow>
     native_function \<Rightarrow> nat \<Rightarrow> error + invoker" where
  "craftInvokerFunction DYNAMIC_EXECUTION arguments_length name' types classType invokerFunc
       targetFunc =
     (let argCount' = length types in
      if argCount' < 2 then
        Inl (BindingError (''argTypes array size mismatch! Must at least get return value and '' @
               quote @ ''this'' @ quote @ '' types!''))
      else
        (case types ! 0 of
           None \<Rightarrow> Inl TypeError
         | Some returnType \<Rightarrow>
             if DYNAMIC_EXECUTION \<and> list_ex (\<lambda>t. t = None) (drop 2 types) then Inl TypeError
             else
               Inr \<lparr>humanName = name', argTypes = types,
                    isClassMethodFunc = (types ! 1 \<noteq> None \<and> classType \<noteq> None),
                    needsDestructorStack =
                      list_ex (\<lambda>t. case t of None \<Rightarrow> False
                                    | Some d \<Rightarrow> destructorFunction d = Destructor_undefined) (tl types),
                    returns = (type_name returnType \<noteq> ''void''),
                    expectedArgCount = argCount' - 2,
                    cppInvokerFunc = invokerFunc, cppTargetFunc = targetFunc,
                    dynamicExecution = DYNAMIC_EXECUTION,
                    craftArguments = arguments_length\<rparr>))"

text \<open>
  The arrays as line 850-852 allocate them (an empty place of \<open>argsWired\<close> is
  written 0), and as a call finds them after lines 860-863.
\<close>

definition new_arrays :: "invoker \<Rightarrow> arrays" where
  "new_arrays self =
     \<lparr>argsWired = replicate (expectedArgCount self) 0, invokerFuncArgs = [], destructors = []\<rparr>"

text \<open>
  Lines 864-867: the conversion of \<open>this\<close>. \<open>thisWired\<close> stays \<open>undefined\<close>,
  written 0, when the invoker is no method.
\<close>

definition convert_this :: "invoker \<Rightarrow> nat \<Rightarrow> arrays \<times> call_event list \<Rightarrow>
    (arrays \<times> call_event list) \<times> (error + nat)" where
  "convert_this self this st =
     (if isClassMethodFunc self then
        (case argTypes self ! 1 of
           None \<Rightarrow> (st, Inl TypeError)
         | Some thisType \<Rightarrow>
             (case toWireType thisType this of
                Inl e \<Rightarrow> ((fst st, snd st @ [ToWireType 1 this]), Inl e)
              | Inr (wired, pushed) \<Rightarrow>
                  (((fst st)\<lparr>destructors := destructors (fst st) @ pushed,
                             invokerFuncArgs := invokerFuncArgs (fst st) @ [wired]\<rparr>,
                    snd st @ [ToWireType 1 this]),
                   Inr wired)))
      else (st, Inr 0))"

text \<open>
  The loop of lines 868-871, from parameter \<open>i\<close> on. \<open>argsWired\<close> has a place
  for each parameter, and what is pushed on \<open>invokerFuncArgs\<close> is the value just
  written there.
\<close>

fun convert_arguments :: "invoker \<Rightarrow> nat \<Rightarrow> nat list \<Rightarrow> arrays \<times> call_event list \<Rightarrow>
    (arrays \<times> call_event list) \<times> (error + unit)" where
  "convert_arguments self i [] st = (st, Inr ())"
| "convert_arguments self i (v # vs) st =
     (case argTypes self ! (i + 2) of
        None \<Rightarrow> (st, Inl TypeError)
      | Some t \<Rightarrow>
          (case toWireType t v of
             Inl e \<Rightarrow> ((fst st, snd st @ [ToWireType (i + 2) v]), Inl e)
           | Inr (wired, pushed) \<Rightarrow>
               convert_arguments self (Suc i) vs
                 ((fst st)\<lparr>argsWired := (argsWired (fst st))[i := wired],
                            destructors := destructors (fst st) @ pushed,
                            invokerFuncArgs := invokerFuncArgs (fst st) @ [wired]\<rparr>,
                  snd st @ [ToWireType (i + 2) v])))"

text \<open>
  The loop of lines 879-884, from place \<open>i\<close> of \<open>argTypes\<close> on.
\<close>

function static_destructors :: "invoker \<Rightarrow> nat \<Rightarrow> nat list \<Rightarrow> nat \<Rightarrow> call_event list \<Rightarrow>
    call_event list \<times> (error + unit)" where
  "static_destructors self thisWired wired i trace =
     (if i < length (argTypes self) then
        let param = (if i = 1 then thisWired else wired ! (i - 2)) in
        (case argTypes self ! i of
           None \<Rightarrow> (trace, Inl TypeError)
         | Some t \<Rightarrow>
             (case destructorFunction t of
                Destructor_null \<Rightarrow> static_destructors self thisWired wired (Suc i) trace
              | Destructor_undefined \<Rightarrow> (trace, Inl TypeError)
              | Destructor_function f \<Rightarrow>
                  static_destructors self thisWired wired (Suc i) (trace @ [Destructor f param])))
      else (trace, Inr ()))"
  by pat_completeness auto
termination
  by (relation "measure (\<lambda>(self, t, a, i, l). length (argTypes self) - i)") auto

declare static_destructors.simps [simp del]

text \<open>
  \<open>onDone\<close> (lines 875-894), on the arrays as they are when it runs.
  \<open>runDestructors\<close> leaves \<open>destructors\<close> empty.
\<close>

definition onDone :: "invoker \<Rightarrow> nat \<Rightarrow> nat \<Rightarrow> arrays \<times> call_event list \<Rightarrow>
    (arrays \<times> call_event list) \<times> (error + nat option)" where
  "onDone self thisWired rv st =
     (case (if needsDestructorStack self
            then (((fst st)\<lparr>destructors := []\<rparr>,
                   runDestructors (destructors (fst st)) (snd st)), Inr ())
            else (case static_destructors self thisWired (argsWired (fst st))
                         (if isClassMethodFunc self then 1 else 2) (snd st) of
                    (trace1, r) \<Rightarrow> ((fst st, trace1), r))) of
        (st1, Inl e) \<Rightarrow> (st1, Inl e)
      | (st1, Inr u) \<Rightarrow>
          if returns self then
            (case argTypes self ! 0 of
               None \<Rightarrow> (st1, Inl TypeError)
             | Some returnType \<Rightarrow>
                 (case fromWireType returnType rv of
                    Inl e \<Rightarrow> ((fst st1, snd st1 @ [FromWireType rv]), Inl e)
                  | Inr v \<Rightarrow> ((fst st1, snd st1 @ [FromWireType rv]), Inr (Some v))))
          else (st1, Inr None))"

text \<open>
  The message of the arity error: line 855 prints the number of arguments of the call,
  the generated text of line 919 the number of arguments \<open>craftInvokerFunction\<close> was
  called with (its \<open>arguments.length\<close> is interpolated when the text is built).
\<close>

definition arity_message :: "invoker \<Rightarrow> nat \<Rightarrow> string" where
  "arity_message self n =
     ''function '' @ humanName self @ '' called with '' @
     string_of_nat (if dynamicExecution self then craftArguments self else n) @
     '' arguments, expected '' @ string_of_nat (expectedArgCount self) @ '' args!''"

text \<open>
  The invoker itself (lines 853-907, and the generated function), on the synchronous
  path, where it ends with \<open>onDone(rv)\<close>; with asynchronous bindings \<open>onDone\<close>
  is the continuation run when the native call has completed. The state is the arrays
  that \<open>craftInvokerFunction\<close> allocated and the events so far. Without code
  generation the call works on these arrays, and \<open>onDone\<close> reads them as the native
  call has left them; the generated function works on variables of its own, which
  nothing else can reach.
\<close>

definition invoke :: "invoker \<Rightarrow> nat \<Rightarrow> nat list \<Rightarrow> arrays \<times> call_event list \<Rightarrow>
    (arrays \<times> call_event list) \<times> (error + nat option)" where
  "invoke self this arguments st =
     (if length arguments \<noteq> expectedArgCount self then
        (st, Inl (BindingError (arity_message self (length arguments))))
      else
        let own = (if dynamicExecution self then new_arrays self else fst st)
                    \<lparr>destructors := [], invokerFuncArgs := [cppTargetFunc self]\<rparr>;
            shared = (\<lambda>a. if dynamicExecution self then fst st else a)
        in (case convert_this self this (own, snd st) of
              (st1, Inl e) \<Rightarrow> ((shared (fst st1), snd st1), Inl e)
            | (st1, Inr thisWired) \<Rightarrow>
                (case convert_arguments self 0 arguments st1 of
                   (st2, Inl e) \<Rightarrow> ((shared (fst st2), snd st2), Inl e)
                 | (st2, Inr u) \<Rightarrow>
                     let trace3 = snd st2 @
                           [Invoke (cppTargetFunc self) (tl (invokerFuncArgs (fst st2)))]
                     in (case cppInvokerFunc self (invokerFuncArgs (fst st2)) (shared (fst st2)) of
                           (a3, events, Inl e) \<Rightarrow> ((a3, trace3 @ events), Inl e)
                         | (a3, events, Inr rv) \<Rightarrow>
                             (case onDone self thisWired rv
                                     (if dynamicExecution self then fst st2 else a3,
                                      trace3 @ events) of
                                (st4, r) \<Rightarrow>
                                  ((if dynamicExecution self then a3 else fst st4, snd st4), r))))))"

text \<open>
  What a call is to do for its parameters: the places in \<open>argTypes\<close> with the host
  values passed (\<open>this\<close> at place 1 for a method, the arguments from place 2 on), the
  wire value of each, the pairs its conversion queues, and the destructor calls owed:
  the queued pairs, last first, when the invoker needs the destructor stack, and else the
  \<open>destructorFunction\<close> of each parameter type that has one, on the wire value.
\<close>

definition parameters :: "invoker \<Rightarrow> nat \<Rightarrow> nat list \<Rightarrow> (nat \<times> nat) list" where
  "parameters self this arguments =
     (if isClassMethodFunc self then [(1, this)] else []) @ List.enumerate 2 arguments"

definition wire_value :: "invoker \<Rightarrow> nat \<times> nat \<Rightarrow> nat" where
  "wire_value self p =
     (case argTypes self ! fst p of
        None \<Rightarrow> 0
      | Some t \<Rightarrow> (case toWireType t (snd p) of Inl e \<Rightarrow> 0 | Inr (wired, pushed) \<Rightarrow> wired))"

definition queued_by :: "invoker \<Rightarrow> nat \<times> nat \<Rightarrow> (nat \<times> nat) list" where
  "queued_by self p =
     (case argTypes self ! fst p of
        None \<Rightarrow> []
      | Some t \<Rightarrow> (case toWireType t (snd p) of Inl e \<Rightarrow> [] | Inr (wired, pushed) \<Rightarrow> pushed))"

definition static_destructor :: "invoker \<Rightarrow> nat \<Rightarrow> nat \<Rightarrow> call_event list" where
  "static_destructor self place wired =
     (case argTypes self ! place of
        None \<Rightarrow> []
      | Some t \<Rightarrow>
          (case destructorFunction t of
             Destructor_function f \<Rightarrow> [Destructor f wired]
           | Destructor_null \<Rightarrow> []
           | Destructor_undefined \<Rightarrow> []))"

definition parameter_destructors :: "invoker \<Rightarrow> (nat \<times> nat) list \<Rightarrow> call_event list" where
  "parameter_destructors self ps =
     (if needsDestructorStack self
      then map (\<lambda>d. Destructor (fst d) (snd d)) (rev (concat (map (queued_by self) ps)))
      else concat (map (\<lambda>p. static_destructor self (fst p) (wire_value self p)) ps))"

text \<open>
  An invoker for \<open>int f(string)\<close>, the string type having a static destructor, and
  one for \<open>int g(pointer)\<close>, the pointer type queueing its destructor at run time.
  \<open>native_sum\<close> makes no call back. \<open>calling_back inner vs\<close> is a native
  function during which the host calls the invoker again, with the arguments \<open>vs\<close>:
  \<open>inner\<close> is the invoker as it is in that call, when its native function makes no
  further call back.
\<close>

definition int_type :: TypeDescriptor where
  "int_type = \<lparr>type_name = ''int'', toWireType = (\<lambda>v. Inr (v, [])), fromWireType = (\<lambda>w. Inr w),
     destructorFunction = Destructor_null\<rparr>"

definition string_type :: TypeDescriptor where
  "string_type = \<lparr>type_name = ''string'', toWireType = (\<lambda>v. Inr (v + 1000, [])),
     fromWireType = (\<lambda>w. Inr (w - 1000)), destructorFunction = Destructor_function 55\<rparr>"

definition pointer_type :: TypeDescriptor where
  "pointer_type = \<lparr>type_name = ''pointer'', toWireType = (\<lambda>v. Inr (v + 2000, [(77, v + 2000)])),
     fromWireType = (\<lambda>w. Inr (w - 2000)), destructorFunction = Destructor_undefined\<rparr>"

definition native_sum :: native_function where
  "native_sum args a = (a, [], Inr (sum_list args))"

definition calling_back :: "invoker \<Rightarrow> nat list \<Rightarrow> native_function" where
  "calling_back inner vs args a =
     (case invoke inner 0 vs (a, []) of
        ((a', events), r) \<Rightarrow> (a', events, Inr (sum_list args)))"

definition example_invoker :: "bool \<Rightarrow> invoker" where
  "example_invoker DYNAMIC_EXECUTION =
     \<lparr>humanName = ''f'', argTypes = [Some int_type, None, Some string_type],
      isClassMethodFunc = False, needsDestructorStack = False, returns = True,
      expectedArgCount = 1, cppInvokerFunc = native_sum, cppTargetFunc = 9,
      dynamicExecution = DYNAMIC_EXECUTION, craftArguments = 6\<rparr>"

definition reentrant_invoker :: "bool \<Rightarrow> invoker" where
  "reentrant_invoker DYNAMIC_EXECUTION =
     (example_invoker DYNAMIC_EXECUTION)
       \<lparr>cppInvokerFunc := calling_back (example_invoker DYNAMIC_EXECUTION) [7]\<rparr>"

definition pointer_invoker :: "bool \<Rightarrow> invoker" where
  "pointer_invoker DYNAMIC_EXECUTION =
     \<lparr>humanName = ''g'', argTypes = [Some int_type, None, Some pointer_type],
      isClassMethodFunc = False, needsDestructorStack = True, returns = True,
      expectedArgCount = 1, cppInvokerFunc = native_sum, cppTargetFunc = 9,
      dynamicExecution = DYNAMIC_EXECUTION, craftArguments = 6\<rparr>"

definition reentrant_pointer_invoker :: "bool \<Rightarrow> invoker" where
  "reentrant_pointer_invoker DYNAMIC_EXECUTION =
     (pointer_invoker DYNAMIC_EXECUTION)
       \<lparr>cppInvokerFunc := calling_back (pointer_invoker DYNAMIC_EXECUTION) [7]\<rparr>"

section \<open>Properties of the class hierarchy\<close>

lemma chain_self: "c \<in> set (chain c)"
  by (subst chain.simps) simp

lemma chain_base: "baseClass c = Some b \<Longrightarrow> chain c = c # chain b"
  by (subst chain.simps) simp

lemma chain_root: "baseClass c = None \<Longrightarrow> chain c = [c]"
  by (subst chain.simps) simp

lemma chain_nonempty: "chain c \<noteq> []"
  by (subst chain.simps) simp

lemma downcast_same: "downcastPointer p c c = Inr (Some p)"
  by (subst downcastPointer.simps) simp

lemma downcast_step:
  "fromClass \<noteq> toClass \<Longrightarrow> baseClass toClass = Some b \<Longrightarrow>
   downcastPointer p fromClass toClass =
     (case downcastPointer p fromClass b of
        Inl e \<Rightarrow> Inl e
      | Inr None \<Rightarrow> Inr None
      | Inr (Some rv) \<Rightarrow>
          (case downcast toClass of
             None \<Rightarrow> Inl TypeError
           | Some down \<Rightarrow> Inr (Some (down rv))))"
  by (subst downcastPointer.simps) simp

lemma downcast_unrelated:
  "ptrClass \<notin> set (chain desiredClass) \<Longrightarrow> downcastPointer p ptrClass desiredClass = Inr None"
proof (induction p ptrClass desiredClass rule: downcastPointer.induct)
  case (1 p ptrClass desiredClass)
  show ?case
  proof (cases "baseClass desiredClass")
    case None
    with "1.prems" show ?thesis
      by (subst downcastPointer.simps) (auto simp: chain_root)
  next
    case (Some b)
    with "1.prems" have ne: "ptrClass \<noteq> desiredClass" and nb: "ptrClass \<notin> set (chain b)"
      by (auto simp: chain_base)
    from "1.IH" [OF ne Some nb] ne Some show ?thesis
      by (subst downcastPointer.simps) simp
  qed
qed

lemma downcast_related:
  "ptrClass \<in> set (chain desiredClass) \<Longrightarrow>
   list_all (\<lambda>c. downcast c \<noteq> None) (takeWhile (\<lambda>c. c \<noteq> ptrClass) (chain desiredClass)) \<Longrightarrow>
   downcastPointer p ptrClass desiredClass =
     Inr (Some (foldr apply_downcast (takeWhile (\<lambda>c. c \<noteq> ptrClass) (chain desiredClass)) p))"
proof (induction p ptrClass desiredClass rule: downcastPointer.induct)
  case (1 p ptrClass desiredClass)
  show ?case
  proof (cases "ptrClass = desiredClass")
    case True
    then show ?thesis
      by (subst downcastPointer.simps, subst chain.simps) simp
  next
    case False
    show ?thesis
    proof (cases "baseClass desiredClass")
      case None
      with "1.prems" False show ?thesis by (simp add: chain_root)
    next
      case (Some b)
      from "1.prems" Some False have mem: "ptrClass \<in> set (chain b)"
        and rest: "list_all (\<lambda>c. downcast c \<noteq> None) (takeWhile (\<lambda>c. c \<noteq> ptrClass) (chain b))"
        and "downcast desiredClass \<noteq> None"
        by (auto simp: chain_base)
      then obtain down where down: "downcast desiredClass = Some down" by auto
      then have ad: "apply_downcast desiredClass = down"
        by (auto simp: apply_downcast_def)
      from "1.IH" [OF False Some mem rest] False Some down ad show ?thesis
        by (subst downcastPointer.simps) (simp add: chain_base)
    qed
  qed
qed

text \<open>
  Claim C6. \<open>downcastPointer\<close> returns the address unchanged when the two classes
  are the same; otherwise it downcasts to the base of the target class first and then
  applies the target's native downcast; it returns "no conversion" (\<open>Inr None\<close>), and
  no error, whenever the target class is not the source class or a descendant of it.
  When it is one, and the classes on the way down have a native downcast, the result is
  the address taken down the chain.
\<close>

theorem downcastPointer_no_conversion:
  "downcastPointer p toClass toClass = Inr (Some p) \<and>
   (fromClass \<noteq> toClass \<and> baseClass toClass = Some b \<longrightarrow>
      downcastPointer p fromClass toClass =
        (case downcastPointer p fromClass b of
           Inl e \<Rightarrow> Inl e
         | Inr None \<Rightarrow> Inr None
         | Inr (Some rv) \<Rightarrow>
             (case downcast toClass of
                None \<Rightarrow> Inl TypeError
              | Some down \<Rightarrow> Inr (Some (down rv))))) \<and>
   (fromClass \<notin> set (chain toClass) \<longrightarrow> downcastPointer p fromClass toClass = Inr None) \<and>
   (fromClass \<in> set (chain toClass) \<and>
    list_all (\<lambda>c. downcast c \<noteq> None) (takeWhile (\<lambda>c. c \<noteq> fromClass) (chain toClass)) \<longrightarrow>
      downcastPointer p fromClass toClass =
        Inr (Some (foldr apply_downcast (takeWhile (\<lambda>c. c \<noteq> fromClass) (chain toClass)) p)))"
  using downcast_same downcast_step downcast_unrelated downcast_related by blast

lemma chain_Derived: "chain Derived = [Derived, Base]"
  by (simp add: chain.simps Derived_def Base_def)

lemma chain_Base: "chain Base = [Base]"
  by (simp add: chain.simps Base_def)

lemma chain_Other: "chain Other = [Other]"
  by (simp add: chain.simps Other_def)

lemma classes_distinct: "Base \<noteq> Derived" "Derived \<noteq> Base" "Other \<noteq> Derived" "Other \<noteq> Base"
   "Base \<noteq> Other" "Derived \<noteq> Other"
  by (simp_all add: Base_def Derived_def Other_def)

theorem downcastPointer_no_conversion_witness:
  "Other \<notin> set (chain Derived) \<and> downcastPointer 24 Other Derived = Inr None \<and>
   Base \<in> set (chain Derived) \<and> downcastPointer 24 Base Derived = Inr (Some 16) \<and>
   downcastPointer 24 Derived Derived = Inr (Some 24)"
proof -
  have a: "Other \<notin> set (chain Derived)" and b: "Base \<in> set (chain Derived)"
    by (simp_all add: chain_Derived classes_distinct)
  have tw: "takeWhile (\<lambda>c. c \<noteq> Base) (chain Derived) = [Derived]"
    by (simp add: chain_Derived classes_distinct)
  have c: "list_all (\<lambda>c. downcast c \<noteq> None) (takeWhile (\<lambda>c. c \<noteq> Base) (chain Derived))"
    unfolding tw by (simp add: Derived_def)
  have d: "foldr apply_downcast (takeWhile (\<lambda>c. c \<noteq> Base) (chain Derived)) 24 = 16"
    unfolding tw by (simp add: apply_downcast_def Derived_def)
  from downcastPointer_no_conversion [of 24 Derived Other Base] a
  have 1: "downcastPointer 24 Other Derived = Inr None" by blast
  from downcastPointer_no_conversion [of 24 Derived Base Base] b c
  have 2: "downcastPointer 24 Base Derived = Inr (Some 16)" unfolding d by blast
  from downcastPointer_no_conversion [of 24 Derived Base Base]
  have 3: "downcastPointer 24 Derived Derived = Inr (Some 24)" by blast
  from a b 1 2 3 show ?thesis by simp
qed

lemma upcast_reached:
  "upcast_wf ptrClass \<Longrightarrow> desiredClass \<in> set (chain ptrClass) \<Longrightarrow>
   upcastPointer p ptrClass desiredClass =
     Inr (foldl (\<lambda>q c. apply_upcast c q) p (takeWhile (\<lambda>c. c \<noteq> desiredClass) (chain ptrClass)))"
proof (induction p ptrClass desiredClass rule: upcastPointer.induct)
  case (1 p ptrClass desiredClass)
  show ?case
  proof (cases "ptrClass = desiredClass")
    case True
    then show ?thesis
      by (subst upcastPointer.simps, subst chain.simps) simp
  next
    case False
    show ?thesis
    proof (cases "baseClass ptrClass")
      case None
      with "1.prems" False show ?thesis by (simp add: chain_root)
    next
      case (Some b)
      with "1.prems"(1) obtain up where up: "upcast ptrClass = Some up"
        by (auto simp: upcast_wf_def chain_base)
      from "1.prems" Some False have wf: "upcast_wf b" and mem: "desiredClass \<in> set (chain b)"
        by (auto simp: upcast_wf_def chain_base)
      from "1.IH" [OF False up Some wf mem] False up Some show ?thesis
        by (subst upcastPointer.simps) (simp add: chain_base apply_upcast_def)
    qed
  qed
qed

lemma upcast_exhausted:
  "upcast_wf ptrClass \<Longrightarrow> desiredClass \<notin> set (chain ptrClass) \<Longrightarrow>
   upcastPointer p ptrClass desiredClass =
     Inl (BindingError (mismatch_message desiredClass (last (chain ptrClass))))"
proof (induction p ptrClass desiredClass rule: upcastPointer.induct)
  case (1 p ptrClass desiredClass)
  from "1.prems" have ne: "ptrClass \<noteq> desiredClass"
    using chain_self by auto
  show ?case
  proof (cases "baseClass ptrClass")
    case None
    with "1.prems"(1) have "upcast ptrClass = None"
      by (simp add: upcast_wf_def chain_root)
    with ne None show ?thesis
      by (subst upcastPointer.simps) (simp add: chain_root)
  next
    case (Some b)
    with "1.prems"(1) obtain up where up: "upcast ptrClass = Some up"
      by (auto simp: upcast_wf_def chain_base)
    from "1.prems" Some have wf: "upcast_wf b" and mem: "desiredClass \<notin> set (chain b)"
      by (auto simp: upcast_wf_def chain_base)
    from "1.IH" [OF ne up Some wf mem] ne up Some show ?thesis
      by (subst upcastPointer.simps) (simp add: chain_base chain_nonempty)
  qed
qed

text \<open>
  Claim C7. \<open>upcastPointer\<close> walks the chain of base classes from the source class,
  applying the native upcast of each class it leaves, and returns the address it has
  when it reaches the target class; when the chain ends before the target is reached it
  fails with the \<open>BindingError\<close> "Expected null or instance of ...".
\<close>

theorem upcastPointer_walk:
  assumes "upcast_wf fromClass"
  shows "upcastPointer p fromClass toClass =
     (if toClass \<in> set (chain fromClass)
      then Inr (foldl (\<lambda>q c. apply_upcast c q) p
                  (takeWhile (\<lambda>c. c \<noteq> toClass) (chain fromClass)))
      else Inl (BindingError (mismatch_message toClass (last (chain fromClass)))))"
  using assms upcast_reached upcast_exhausted by simp

theorem upcastPointer_walk_witness:
  "upcast_wf Derived \<and> upcastPointer 16 Derived Base = Inr 24 \<and>
   upcastPointer 16 Derived Other =
     Inl (BindingError ''Expected null or instance of Other, got an instance of Base'')"
proof -
  have wf: "upcast_wf Derived"
    by (simp add: upcast_wf_def chain_Derived) (simp add: Derived_def Base_def)
  have "upcastPointer 16 Derived Base = Inr 24"
    using upcastPointer_walk [OF wf, of 16 Base]
    by (simp add: chain_Derived classes_distinct apply_upcast_def) (simp add: Derived_def)
  moreover have "upcastPointer 16 Derived Other =
     Inl (BindingError ''Expected null or instance of Other, got an instance of Base'')"
    using upcastPointer_walk [OF wf, of 16 Other]
    by (simp add: chain_Derived classes_distinct mismatch_message_def) (simp add: Other_def Base_def)
  ultimately show ?thesis using wf by simp
qed

section \<open>Properties of handles\<close>

lemma update_dd_frame [simp]:
  "counts (update_dd s h f) = counts s"
  "deletionQueue (update_dd s h f) = deletionQueue s"
  "delayFunction (update_dd s h f) = delayFunction s"
  "destructorCalls (update_dd s h f) = destructorCalls s"
  "delayCalls (update_dd s h f) = delayCalls s"
  "length (handles (update_dd s h f)) = length (handles s)"
  by (simp_all add: update_dd_def)

text \<open>
  Claim C10. A record that \<open>makeClassHandle\<close> accepts has a non-null \<open>ptr\<close> and
  a \<open>ptrType\<close>, and has \<open>smartPtr\<close> exactly when it has \<open>smartPtrType\<close>;
  any other record is refused with an \<open>InternalError\<close> and the state is left as it
  was. The handle returned is new, its count cell is new and holds 1, and its record
  keeps the invariant.
\<close>
theorem makeClassHandle_invariant:
  "(makeClassHandle s prototype record = (s', Inr h) \<longrightarrow>
      truthy (ptr record) \<and> ptrType record \<noteq> None \<and>
      truthy (smartPtr record) = (smartPtrType record \<noteq> None) \<and>
      h = length (handles s) \<and>
      handles s' = handles s @ [\<lparr>proto = prototype, dd = record\<lparr>count := Some (length (counts s))\<rparr>\<rparr>] \<and>
      counts s' = counts s @ [1] \<and>
      count (dd (handles s' ! h)) = Some (length (counts s)) \<and>
      counts s' ! length (counts s) = 1 \<and>
      truthy (smartPtr (dd (handles s' ! h))) = (smartPtrType (dd (handles s' ! h)) \<noteq> None)) \<and>
   (\<not> truthy (ptr record) \<or> ptrType record = None \<or>
    truthy (smartPtr record) \<noteq> (smartPtrType record \<noteq> None) \<longrightarrow>
      (\<exists>m. makeClassHandle s prototype record = (s, Inl (InternalError m)))) \<and>
   (truthy (ptr record) \<and> ptrType record \<noteq> None \<and>
    truthy (smartPtr record) = (smartPtrType record \<noteq> None) \<longrightarrow>
      (\<exists>s'' h'. makeClassHandle s prototype record = (s'', Inr h')))"
  by (auto simp: makeClassHandle_def Let_def nth_append split: if_splits)

lemma one_handle_eq:
  "makeClassHandle empty_state (InstancePrototype 2) raw_record =
     (\<lparr>handles = [\<lparr>proto = InstancePrototype 2, dd = raw_record\<lparr>count := Some 0\<rparr>\<rparr>], counts = [1],
       deletionQueue = [], delayFunction = Some 7, destructorCalls = [], delayCalls = []\<rparr>, Inr 0)"
  by (simp add: makeClassHandle_def empty_state_def raw_record_def truthy_def)

theorem makeClassHandle_invariant_witness:
  "makeClassHandle empty_state (InstancePrototype 2) raw_record = (one_handle, Inr 0) \<and>
   counts one_handle ! 0 = 1 \<and> count (dd (handles one_handle ! 0)) = Some 0 \<and>
   \<not> truthy (smartPtr raw_record) \<and>
   makeClassHandle empty_state (InstancePrototype 2) (raw_record\<lparr>smartPtr := Some 64\<rparr>) =
     (empty_state, Inl (InternalError ''Both smartPtrType and smartPtr must be specified''))"
proof -
  have m: "makeClassHandle empty_state (InstancePrototype 2) raw_record = (one_handle, Inr 0)"
    by (simp add: one_handle_def one_handle_eq)
  from makeClassHandle_invariant [of empty_state "InstancePrototype 2" raw_record one_handle 0] m
  have "counts one_handle ! length (counts empty_state) = 1 \<and>
        count (dd (handles one_handle ! 0)) = Some (length (counts empty_state)) \<and>
        truthy (smartPtr raw_record) = (smartPtrType raw_record \<noteq> None)"
    by blast
  then have a: "counts one_handle ! 0 = 1 \<and> count (dd (handles one_handle ! 0)) = Some 0 \<and>
        \<not> truthy (smartPtr raw_record)"
    by (simp add: empty_state_def raw_record_def)
  have b: "makeClassHandle empty_state (InstancePrototype 2) (raw_record\<lparr>smartPtr := Some 64\<rparr>) =
     (empty_state, Inl (InternalError ''Both smartPtrType and smartPtr must be specified''))"
    by (simp add: makeClassHandle_def raw_record_def truthy_def)
  from m a b show ?thesis by simp
qed

lemma clone_deleted:
  assumes "this < length (handles s)" and "\<not> truthy (ptr (dd (handles s ! this)))"
  shows "ClassHandle_clone s this = (s, Inl (throwInstanceAlreadyDeleted (dd (handles s ! this))))"
  using assms by (simp add: ClassHandle_clone_def Let_def)

lemma clone_preserved:
  assumes "this < length (handles s)" and "truthy (ptr (dd (handles s ! this)))"
    and "count (dd (handles s ! this)) = Some c" and "c < length (counts s)"
    and "preservePointerOnDelete (dd (handles s ! this))"
  shows "ClassHandle_clone s this = (s\<lparr>counts := (counts s)[c := counts s ! c + 1]\<rparr>, Inr this)"
  using assms by (simp add: ClassHandle_clone_def Let_def add_count_def)

lemma clone_fresh:
  assumes "this < length (handles s)" and "truthy (ptr (dd (handles s ! this)))"
    and "count (dd (handles s ! this)) = Some c" and "c < length (counts s)"
    and "\<not> preservePointerOnDelete (dd (handles s ! this))"
  shows "ClassHandle_clone s this =
     (s\<lparr>counts := (counts s)[c := counts s ! c + 1],
        handles := handles s @
          [\<lparr>proto = proto (handles s ! this),
            dd = (dd (handles s ! this))\<lparr>deleteScheduled := False\<rparr>\<rparr>]\<rparr>,
      Inr (length (handles s)))"
  using assms
  by (simp add: ClassHandle_clone_def Let_def add_count_def update_dd_def
      shallowCopyInternalPointer_def nth_append)

text \<open>
  Claim C2. \<open>clone\<close> of a handle whose pointer is null fails with the
  \<open>BindingError\<close> "... instance already deleted". Otherwise it adds 1 to the shared
  count and returns the handle itself when \<open>preservePointerOnDelete\<close> is set, and
  else a new handle whose record has the same count cell, pointer and pointer type and
  \<open>deleteScheduled\<close> false; the handles that existed are unchanged.
\<close>

theorem ClassHandle_clone_shares_count:
  assumes "this < length (handles s)" and "r = dd (handles s ! this)"
  shows "(\<not> truthy (ptr r) \<and> ptrType r = Some t \<longrightarrow>
            ClassHandle_clone s this =
              (s, Inl (BindingError (name (registeredClass t) @ '' instance already deleted'')))) \<and>
         (truthy (ptr r) \<and> count r = Some c \<and> c < length (counts s) \<longrightarrow>
            (\<exists>s' h. ClassHandle_clone s this = (s', Inr h) \<and>
               counts s' = (counts s)[c := counts s ! c + 1] \<and>
               (if preservePointerOnDelete r then h = this \<and> handles s' = handles s
                else h = length (handles s) \<and>
                     take (length (handles s)) (handles s') = handles s \<and>
                     length (handles s') = Suc (length (handles s)) \<and>
                     proto (handles s' ! h) = proto (handles s ! this) \<and>
                     count (dd (handles s' ! h)) = Some c \<and>
                     ptr (dd (handles s' ! h)) = ptr r \<and>
                     ptrType (dd (handles s' ! h)) = ptrType r \<and>
                     smartPtr (dd (handles s' ! h)) = smartPtr r \<and>
                     smartPtrType (dd (handles s' ! h)) = smartPtrType r \<and>
                     \<not> deleteScheduled (dd (handles s' ! h)))))"
proof (intro conjI impI)
  assume "\<not> truthy (ptr r) \<and> ptrType r = Some t"
  with assms clone_deleted [of this s]
  show "ClassHandle_clone s this =
      (s, Inl (BindingError (name (registeredClass t) @ '' instance already deleted'')))"
    by (simp add: throwInstanceAlreadyDeleted_def)
next
  assume a: "truthy (ptr r) \<and> count r = Some c \<and> c < length (counts s)"
  show "\<exists>s' h. ClassHandle_clone s this = (s', Inr h) \<and>
               counts s' = (counts s)[c := counts s ! c + 1] \<and>
               (if preservePointerOnDelete r then h = this \<and> handles s' = handles s
                else h = length (handles s) \<and>
                     take (length (handles s)) (handles s') = handles s \<and>
                     length (handles s') = Suc (length (handles s)) \<and>
                     proto (handles s' ! h) = proto (handles s ! this) \<and>
                     count (dd (handles s' ! h)) = Some c \<and>
                     ptr (dd (handles s' ! h)) = ptr r \<and>
                     ptrType (dd (handles s' ! h)) = ptrType r \<and>
                     smartPtr (dd (handles s' ! h)) = smartPtr r \<and>
                     smartPtrType (dd (handles s' ! h)) = smartPtrType r \<and>
                     \<not> deleteScheduled (dd (handles s' ! h)))"
  proof (cases "preservePointerOnDelete r")
    case True
    with a assms clone_preserved [of this s c] show ?thesis by simp
  next
    case False
    with a assms clone_fresh [of this s c] show ?thesis by simp
  qed
qed

lemma one_handle_simps:
  "one_handle = \<lparr>handles = [\<lparr>proto = InstancePrototype 2, dd = raw_record\<lparr>count := Some 0\<rparr>\<rparr>],
       counts = [1], deletionQueue = [], delayFunction = Some 7, destructorCalls = [],
       delayCalls = []\<rparr>"
  by (simp add: one_handle_def one_handle_eq)

theorem ClassHandle_clone_shares_count_witness:
  "0 < length (handles one_handle) \<and> truthy (ptr (dd (handles one_handle ! 0))) \<and>
   count (dd (handles one_handle ! 0)) = Some 0 \<and> 0 < length (counts one_handle) \<and>
   (\<exists>s'. ClassHandle_clone one_handle 0 = (s', Inr 1) \<and> counts s' = [2] \<and>
      count (dd (handles s' ! 1)) = Some 0 \<and> count (dd (handles s' ! 0)) = Some 0 \<and>
      ptr (dd (handles s' ! 1)) = Some 16)"
proof -
  have h: "0 < length (handles one_handle)" "truthy (ptr (dd (handles one_handle ! 0)))"
    "count (dd (handles one_handle ! 0)) = Some 0" "0 < length (counts one_handle)"
    "\<not> preservePointerOnDelete (dd (handles one_handle ! 0))"
    "handles one_handle ! 0 = \<lparr>proto = InstancePrototype 2, dd = raw_record\<lparr>count := Some 0\<rparr>\<rparr>"
    by (simp_all add: one_handle_simps raw_record_def truthy_def)
  from ClassHandle_clone_shares_count [OF h(1) refl, of _ 0] h
  obtain s' k where c: "ClassHandle_clone one_handle 0 = (s', Inr k)"
    and cs: "counts s' = (counts one_handle)[0 := counts one_handle ! 0 + 1]"
    and k: "k = length (handles one_handle)"
    and tk: "take (length (handles one_handle)) (handles s') = handles one_handle"
    and ck: "count (dd (handles s' ! k)) = Some 0"
    and pk: "ptr (dd (handles s' ! k)) = ptr (dd (handles one_handle ! 0))"
    by auto
  have k1: "k = 1" using k by (simp add: one_handle_simps)
  have "handles s' ! 0 = handles one_handle ! 0"
    using tk h(1) by (metis nth_take)
  with c cs ck pk k1 h show ?thesis
    by (simp add: one_handle_simps raw_record_def)
qed




lemma update_scheduled_same:
  "map unscheduled (handles (update_dd s h (\<lambda>r. r\<lparr>deleteScheduled := b\<rparr>))) = map unscheduled (handles s)"
  by (cases "h < length (handles s)")
     (simp_all add: update_dd_def map_update unscheduled_def list_update_same_conv list_update_beyond not_less)

lemma defers_deferring_hook: "defers deferring_hook"
  by (simp add: defers_def deferring_hook_def)

lemma call_delayFunction_frame:
  assumes "defers hook" and "call_delayFunction hook s = (s', r)"
  shows "handles s' = handles s" and "counts s' = counts s"
    and "deletionQueue s' = deletionQueue s" and "destructorCalls s' = destructorCalls s"
proof -
  have "s' = fst (call_delayFunction hook s)" using assms(2) by simp
  then have "s' = s \<or> (\<exists>f. s' = fst (hook f s))"
    by (auto simp: call_delayFunction_def split: option.splits)
  with assms(1) show "handles s' = handles s" and "counts s' = counts s"
    and "deletionQueue s' = deletionQueue s" and "destructorCalls s' = destructorCalls s"
    by (auto simp: defers_def)
qed

lemma deleteLater_refused:
  assumes "\<not> (h < length (handles s) \<and> truthy (ptr (dd (handles s ! h))) \<and>
    \<not> (deleteScheduled (dd (handles s ! h)) \<and> \<not> preservePointerOnDelete (dd (handles s ! h))))"
  shows "\<exists>e. ClassHandle_deleteLater hook s h = (s, Inl e)"
  using assms by (auto simp: ClassHandle_deleteLater_def Let_def)

lemma deleteLater_accepted:
  assumes "h < length (handles s) \<and> truthy (ptr (dd (handles s ! h))) \<and>
    \<not> (deleteScheduled (dd (handles s ! h)) \<and> \<not> preservePointerOnDelete (dd (handles s ! h)))"
  shows "ClassHandle_deleteLater hook s h =
     (case call_delayFunction hook (s\<lparr>deletionQueue := deletionQueue s @ [h]\<rparr>) of
        (s1, Inl e) \<Rightarrow> (s1, Inl e)
      | (s1, Inr u) \<Rightarrow> (update_dd s1 h (\<lambda>r. r\<lparr>deleteScheduled := True\<rparr>), Inr h))"
  using assms by (auto simp: ClassHandle_deleteLater_def Let_def)

lemma deleteLater_effect:
  assumes df: "defers hook" and d: "ClassHandle_deleteLater hook s h = (s', r)"
  shows "counts s' = counts s" and "destructorCalls s' = destructorCalls s"
    and "map unscheduled (handles s') = map unscheduled (handles s)"
    and "set (deletionQueue s) \<subseteq> set (deletionQueue s')"
    and "\<And>e. r = Inl e \<Longrightarrow> handles s' = handles s"
    and "\<And>v. r = Inr v \<Longrightarrow> v = h \<and> h < length (handles s) \<and>
           deletionQueue s' = deletionQueue s @ [h] \<and>
           handles s' = (handles s)[h := (handles s ! h)\<lparr>dd := (dd (handles s ! h))\<lparr>deleteScheduled := True\<rparr>\<rparr>]"
proof -
  let ?ok = "h < length (handles s) \<and> truthy (ptr (dd (handles s ! h))) \<and>
    \<not> (deleteScheduled (dd (handles s ! h)) \<and> \<not> preservePointerOnDelete (dd (handles s ! h)))"
  let ?p = "s\<lparr>deletionQueue := deletionQueue s @ [h]\<rparr>"
  let ?marked = "(handles s)[h := (handles s ! h)\<lparr>dd := (dd (handles s ! h))\<lparr>deleteScheduled := True\<rparr>\<rparr>]"
  have all: "counts s' = counts s \<and> destructorCalls s' = destructorCalls s \<and>
    map unscheduled (handles s') = map unscheduled (handles s) \<and>
    set (deletionQueue s) \<subseteq> set (deletionQueue s') \<and>
    ((\<exists>e. r = Inl e) \<longrightarrow> handles s' = handles s) \<and>
    ((\<exists>v. r = Inr v) \<longrightarrow> r = Inr h \<and> h < length (handles s) \<and>
       deletionQueue s' = deletionQueue s @ [h] \<and> handles s' = ?marked)"
  proof (cases ?ok)
    case False
    from deleteLater_refused [OF False, of hook] d show ?thesis by auto
  next
    case True
    obtain s1 r1 where c: "call_delayFunction hook ?p = (s1, r1)"
      by (cases "call_delayFunction hook ?p")
    note f = call_delayFunction_frame [OF df c]
    note a = deleteLater_accepted [OF True, of hook]
    show ?thesis
    proof (cases r1)
      case (Inl e)
      with a c d have "s' = s1" "r = Inl e" by simp_all
      with f show ?thesis by auto
    next
      case (Inr u)
      with a c d have s': "s' = update_dd s1 h (\<lambda>r. r\<lparr>deleteScheduled := True\<rparr>)"
        and r: "r = Inr h" by simp_all
      have m: "map unscheduled (handles s') = map unscheduled (handles s)"
        using update_scheduled_same [of s1 h True] s' f(1) by simp
      have hs: "handles s' = ?marked"
        using s' f(1) by (simp add: update_dd_def)
      from s' r f m hs True show ?thesis by auto
    qed
  qed
  from all show "counts s' = counts s" and "destructorCalls s' = destructorCalls s"
    and "map unscheduled (handles s') = map unscheduled (handles s)"
    and "set (deletionQueue s) \<subseteq> set (deletionQueue s')" by blast+
  from all show "handles s' = handles s" if "r = Inl e" for e using that by blast
  from all show "v = h \<and> h < length (handles s) \<and>
           deletionQueue s' = deletionQueue s @ [h] \<and> handles s' = ?marked" if "r = Inr v" for v
    using that by auto
qed

lemma deleteLater_each_frame:
  "defers hook \<or> hs = [] \<Longrightarrow> deleteLater_each hook s hs = (s', r) \<Longrightarrow>
   map unscheduled (handles s') = map unscheduled (handles s) \<and>
   destructorCalls s' = destructorCalls s \<and> counts s' = counts s"
proof (induction hs arbitrary: s)
  case Nil
  then show ?case by simp
next
  case (Cons h hs)
  from Cons.prems(1) have df: "defers hook" by simp
  obtain s1 r1 where d: "ClassHandle_deleteLater hook s h = (s1, r1)"
    by (cases "ClassHandle_deleteLater hook s h")
  note f = deleteLater_effect(1-3) [OF df d]
  show ?case
  proof (cases r1)
    case (Inl e)
    with Cons.prems d f show ?thesis by simp
  next
    case (Inr v)
    with Cons.prems d have "deleteLater_each hook s1 hs = (s', r)" by simp
    from Cons.IH [OF _ this] df f show ?thesis by simp
  qed
qed






lemma Derived_fields: "name Derived = ''Derived''" "rawDestructor Derived = 200"
  by (simp_all add: Derived_def)


lemma call_deferring_hook:
  "call_delayFunction deferring_hook s =
     (if length (deletionQueue s) = 1
      then (case delayFunction s of
              None \<Rightarrow> (s, Inr ())
            | Some f \<Rightarrow> (s\<lparr>delayCalls := delayCalls s @ [f]\<rparr>, Inr ()))
      else (s, Inr ()))"
  by (simp add: call_delayFunction_def deferring_hook_def split: option.splits)





lemma upcast_to_root_total:
  "upcast_wf c \<Longrightarrow> \<exists>root a. upcast_to_root c p = Inr (root, a)"
proof (induction c p rule: upcast_to_root.induct)
  case (1 c p)
  show ?case
  proof (cases "baseClass c")
    case None
    then show ?thesis by (subst upcast_to_root.simps) simp
  next
    case (Some b)
    with "1.prems" obtain up where up: "upcast c = Some up"
      by (auto simp: upcast_wf_def chain_base)
    from "1.prems" Some have "upcast_wf b" by (simp add: upcast_wf_def chain_base)
    from "1.IH" [OF Some up this] Some up show ?thesis
      by (subst upcast_to_root.simps) simp
  qed
qed

lemma clone_success:
  assumes "ClassHandle_clone s this = (s', Inr h)"
  shows "this < length (handles s) \<and> truthy (ptr (dd (handles s ! this))) \<and>
         (\<exists>c. count (dd (handles s ! this)) = Some c \<and> c < length (counts s))"
proof -
  from assms have v: "this < length (handles s)"
    by (auto simp: ClassHandle_clone_def split: if_splits)
  from assms v have l: "truthy (ptr (dd (handles s ! this)))"
    by (auto simp: ClassHandle_clone_def Let_def split: if_splits)
  from assms v l have "\<exists>c. count (dd (handles s ! this)) = Some c \<and> c < length (counts s)"
    by (auto simp: ClassHandle_clone_def Let_def add_count_def shallowCopyInternalPointer_def
        nth_append split: if_splits option.splits)
  with v l show ?thesis by simp
qed

text \<open>
  Claim C8. For a handle \<open>h0\<close> that \<open>clone\<close> accepts and \<open>h1 = clone(h0)\<close>:
  \<open>isAliasOf(h1, h0)\<close> is true, both pointers taken up to the root of the class chain
  giving the same root class and the same address, and the two handles have the same
  count cell. (The classes on the chain have an upcast function when they have a base
  class: without one the loop of \<open>isAliasOf\<close> calls \<open>undefined\<close>.)
\<close>
theorem ClassHandle_clone_isAliasOf:
  assumes cl: "ClassHandle_clone s h0 = (s', Inr h1)"
    and inst: "instanceof_ClassHandle (proto (handles s ! h0))"
    and t: "ptrType (dd (handles s ! h0)) = Some t"
    and wf: "upcast_wf (registeredClass t)"
  shows "ClassHandle_isAliasOf s' h1 h0 = Inr True \<and>
         (\<exists>root a.
            upcast_to_root (registeredClass t) (ptr (dd (handles s' ! h1))) = Inr (root, a) \<and>
            upcast_to_root (registeredClass t) (ptr (dd (handles s' ! h0))) = Inr (root, a)) \<and>
         (\<exists>c. count (dd (handles s' ! h1)) = Some c \<and> count (dd (handles s' ! h0)) = Some c \<and>
              c < length (counts s'))"
proof -
  from clone_success [OF cl] obtain c where v: "h0 < length (handles s)"
    and l: "truthy (ptr (dd (handles s ! h0)))"
    and c: "count (dd (handles s ! h0)) = Some c" "c < length (counts s)"
    by blast
  let ?p = "ptr (dd (handles s ! h0))"
  from upcast_to_root_total [OF wf, of ?p] obtain root a
    where u: "upcast_to_root (registeredClass t) ?p = Inr (root, a)" by blast
  have same: "h0 < length (handles s') \<and> h1 < length (handles s') \<and>
      proto (handles s' ! h0) = proto (handles s ! h0) \<and>
      proto (handles s' ! h1) = proto (handles s ! h0) \<and>
      ptr (dd (handles s' ! h0)) = ?p \<and> ptr (dd (handles s' ! h1)) = ?p \<and>
      ptrType (dd (handles s' ! h0)) = Some t \<and> ptrType (dd (handles s' ! h1)) = Some t \<and>
      count (dd (handles s' ! h0)) = Some c \<and> count (dd (handles s' ! h1)) = Some c \<and>
      c < length (counts s')"
  proof (cases "preservePointerOnDelete (dd (handles s ! h0))")
    case True
    from clone_preserved [OF v l c True] cl v t c show ?thesis by auto
  next
    case False
    from clone_fresh [OF v l c False] cl v t c show ?thesis by (auto simp: nth_append)
  qed
  with inst u have "ClassHandle_isAliasOf s' h1 h0 = Inr True"
    by (simp add: ClassHandle_isAliasOf_def)
  with same u show ?thesis by auto
qed

lemma wf_Derived: "upcast_wf Derived"
  by (simp add: upcast_wf_def chain_Derived) (simp add: Derived_def Base_def)

theorem ClassHandle_clone_isAliasOf_witness:
  "instanceof_ClassHandle (proto (handles one_handle ! 0)) \<and>
   ptrType (dd (handles one_handle ! 0)) = Some DerivedPtr \<and>
   upcast_wf (registeredClass DerivedPtr) \<and>
   (\<exists>s'. ClassHandle_clone one_handle 0 = (s', Inr 1) \<and>
      ClassHandle_isAliasOf s' 1 0 = Inr True \<and>
      count (dd (handles s' ! 1)) = Some 0 \<and> count (dd (handles s' ! 0)) = Some 0)"
proof -
  have h: "0 < length (handles one_handle)" "truthy (ptr (dd (handles one_handle ! 0)))"
    "count (dd (handles one_handle ! 0)) = Some 0" "0 < length (counts one_handle)"
    "\<not> preservePointerOnDelete (dd (handles one_handle ! 0))"
    by (simp_all add: one_handle_simps raw_record_def truthy_def)
  have i: "instanceof_ClassHandle (proto (handles one_handle ! 0))"
    and t: "ptrType (dd (handles one_handle ! 0)) = Some DerivedPtr"
    by (simp_all add: one_handle_simps raw_record_def)
  have w: "upcast_wf (registeredClass DerivedPtr)"
    by (simp add: DerivedPtr_def wf_Derived)
  from clone_fresh [OF h] obtain s' where c: "ClassHandle_clone one_handle 0 = (s', Inr 1)"
    by (simp add: one_handle_simps)
  from ClassHandle_clone_isAliasOf [OF c i t w] clone_fresh [OF h] c
  have "ClassHandle_isAliasOf s' 1 0 = Inr True \<and>
      count (dd (handles s' ! 1)) = Some 0 \<and> count (dd (handles s' ! 0)) = Some 0"
    by (auto simp: one_handle_simps raw_record_def)
  with c i t w show ?thesis by blast
qed

section \<open>Properties of the deletion queue\<close>

lemma pending_queued_iff:
  "pending_queued s =
     (\<forall>h. h < length (handles s) \<and> deleteScheduled (dd (handles s ! h)) \<longrightarrow>
          h \<in> set (deletionQueue s))"
  by (auto simp: pending_queued_def pending_def list_all_iff)

lemma deleteLater_pending:
  assumes df: "defers hook" and p: "pending_queued s"
    and d: "ClassHandle_deleteLater hook s h = (s', r)"
  shows "pending_queued s'"
proof (cases r)
  case (Inl e)
  from deleteLater_effect(5) [OF df d Inl] have hs: "handles s' = handles s" .
  from deleteLater_effect(4) [OF df d] have q: "set (deletionQueue s) \<subseteq> set (deletionQueue s')" .
  from p hs q show ?thesis by (auto simp: pending_queued_iff)
next
  case (Inr v)
  note e = deleteLater_effect(6) [OF df d Inr]
  show ?thesis
    unfolding pending_queued_iff
  proof (intro allI impI)
    fix k assume k: "k < length (handles s') \<and> deleteScheduled (dd (handles s' ! k))"
    show "k \<in> set (deletionQueue s')"
    proof (cases "k = h")
      case True
      with e show ?thesis by simp
    next
      case False
      with k e have "k < length (handles s) \<and> deleteScheduled (dd (handles s ! k))" by simp
      with p have "k \<in> set (deletionQueue s)" by (simp add: pending_queued_iff)
      with e show ?thesis by simp
    qed
  qed
qed

lemma deleteLater_each_pending:
  "defers hook \<Longrightarrow> pending_queued s \<Longrightarrow> deleteLater_each hook s hs = (s', r) \<Longrightarrow>
   pending_queued s'"
proof (induction hs arbitrary: s)
  case Nil
  then show ?case by simp
next
  case (Cons h hs)
  obtain s1 r1 where d: "ClassHandle_deleteLater hook s h = (s1, r1)"
    by (cases "ClassHandle_deleteLater hook s h")
  from deleteLater_pending [OF Cons.prems(1) Cons.prems(2) d] have p: "pending_queued s1" .
  show ?case
  proof (cases r1)
    case (Inl e)
    with Cons.prems d p show ?thesis by simp
  next
    case (Inr v)
    with Cons.prems d have "deleteLater_each hook s1 hs = (s', r)" by simp
    from Cons.IH [OF Cons.prems(1) p this] show ?thesis .
  qed
qed

lemma pending_queued_cong:
  assumes "map (\<lambda>h. deleteScheduled (dd h)) (handles s') = map (\<lambda>h. deleteScheduled (dd h)) (handles s)"
    and "deletionQueue s' = deletionQueue s"
  shows "pending_queued s' = pending_queued s"
proof -
  from assms(1) have len: "length (handles s') = length (handles s)"
    by (rule map_eq_imp_length_eq)
  have "deleteScheduled (dd (handles s' ! k)) = deleteScheduled (dd (handles s ! k))"
    if "k < length (handles s)" for k
    using assms(1) that len by (metis (mono_tags, lifting) nth_map)
  with len assms(2) show ?thesis by (auto simp: pending_queued_iff)
qed

lemma add_count_pending:
  "add_count s r d = (s', res) \<Longrightarrow> pending_queued s' = pending_queued s"
  by (rule pending_queued_cong) (auto simp: add_count_def split: option.splits if_splits)

lemma release_pending:
  assumes df: "defers hook" and "pending_queued s"
    and "releaseClassHandle hook R s r = (s', res)"
  shows "pending_queued s'"
proof -
  obtain s1 r1 where a: "add_count s r (- 1) = (s1, r1)" by (cases "add_count s r (- 1)")
  from add_count_pending [OF a] assms(2) have p1: "pending_queued s1" by simp
  show ?thesis
  proof (cases r1)
    case (Inl e)
    with assms(3) a p1 show ?thesis by (simp add: releaseClassHandle_def)
  next
    case (Inr v)
    show ?thesis
    proof (cases "v = 0")
      case False
      with assms(3) a Inr p1 show ?thesis by (simp add: releaseClassHandle_def)
    next
      case True
      with assms(3) a Inr have rd: "runDestructor hook R s1 r = (s', res)"
        by (simp add: releaseClassHandle_def)
      show ?thesis
      proof (cases "destructor_call r")
        case (Inl e)
        with rd p1 show ?thesis by (simp add: runDestructor_def)
      next
        case (Inr c)
        let ?s2 = "s1\<lparr>destructorCalls := destructorCalls s1 @ [c]\<rparr>"
        have "pending_queued ?s2 = pending_queued s1"
          by (rule pending_queued_cong) simp_all
        with p1 have p2: "pending_queued ?s2" by simp
        from rd Inr have "deleteLater_each hook ?s2 (R c) = (s', res)"
          by (simp add: runDestructor_def)
        from deleteLater_each_pending [OF df p2 this] show ?thesis .
      qed
    qed
  qed
qed

lemma update_dd_flags:
  assumes "\<And>r. deleteScheduled (f r) = deleteScheduled r"
  shows "map (\<lambda>h. deleteScheduled (dd h)) (handles (update_dd s k f)) =
         map (\<lambda>h. deleteScheduled (dd h)) (handles s)"
  by (cases "k < length (handles s)")
     (simp_all add: update_dd_def map_update assms list_update_same_conv list_update_beyond not_less)

lemma delete_pending:
  assumes df: "defers hook" and "pending_queued s"
    and "ClassHandle_delete hook R s h = (s', res)"
  shows "pending_queued s'"
proof -
  let ?r = "dd (handles s ! h)"
  obtain s1 r1 where rel: "releaseClassHandle hook R s ?r = (s1, r1)"
    by (cases "releaseClassHandle hook R s ?r")
  from release_pending [OF df assms(2) rel] have p1: "pending_queued s1" .
  have "pending_queued (update_dd s1 h (\<lambda>r. r\<lparr>smartPtr := None, ptr := None\<rparr>)) = pending_queued s1"
    by (rule pending_queued_cong) (simp_all add: update_dd_flags)
  with p1 have p2: "pending_queued (update_dd s1 h (\<lambda>r. r\<lparr>smartPtr := None, ptr := None\<rparr>))"
    by simp
  from assms rel p1 p2 show ?thesis
    by (cases r1) (auto simp: ClassHandle_delete_def Let_def split: if_splits)
qed

lemma pop_pending:
  assumes "pending_queued s" and "deletionQueue s \<noteq> []"
  shows "pending_queued (update_dd (s\<lparr>deletionQueue := butlast (deletionQueue s)\<rparr>)
           (last (deletionQueue s)) (\<lambda>r. r\<lparr>deleteScheduled := False\<rparr>))"
  unfolding pending_queued_iff
proof (intro allI impI)
  let ?obj = "last (deletionQueue s)"
  let ?s0 = "update_dd (s\<lparr>deletionQueue := butlast (deletionQueue s)\<rparr>) ?obj
               (\<lambda>r. r\<lparr>deleteScheduled := False\<rparr>)"
  fix k assume k: "k < length (handles ?s0) \<and> deleteScheduled (dd (handles ?s0 ! k))"
  then have kl: "k < length (handles s)" by simp
  from k kl have ne: "k \<noteq> ?obj" by (auto simp: update_dd_def)
  with k kl have "deleteScheduled (dd (handles s ! k))" by (simp add: update_dd_def)
  with assms(1) kl have "k \<in> set (deletionQueue s)" by (simp add: pending_queued_iff)
  with ne assms(2) have "k \<in> set (butlast (deletionQueue s))"
    by (metis append_butlast_last_id in_set_conv_decomp_last  butlast_snoc last_snoc  in_set_butlast_appendI  rotate1.simps(2) set_ConsD set_rotate1)
  then show "k \<in> set (deletionQueue ?s0)" by simp
qed

text \<open>What makes the loop end when the hook defers, whatever the destructors push.\<close>

lemma owed_update:
  assumes "c < length xs"
  shows "sum_list (map nat (xs[c := xs ! c - 1])) \<le> sum_list (map nat xs)"
    and "xs ! c - 1 = 0 \<Longrightarrow> sum_list (map nat (xs[c := xs ! c - 1])) < sum_list (map nat xs)"
proof -
  have len: "c < length (map nat xs)" using assms by simp
  have eq: "sum_list ((map nat xs)[c := nat (xs ! c - 1)]) =
      sum_list (map nat xs) + nat (xs ! c - 1) - (map nat xs) ! c"
    using sum_list_update [OF len] by simp
  have le: "(map nat xs) ! c \<le> sum_list (map nat xs)"
    using len by (rule elem_le_sum_list)
  show "sum_list (map nat (xs[c := xs ! c - 1])) \<le> sum_list (map nat xs)"
    using eq le assms by (simp add: map_update)
  show "sum_list (map nat (xs[c := xs ! c - 1])) < sum_list (map nat xs)" if "xs ! c - 1 = 0"
    using eq le assms that by (simp add: map_update)
qed

lemma add_count_owed:
  assumes "add_count s r (- 1) = (s1, Inr v)"
  shows "owed s1 \<le> owed s" and "v = 0 \<Longrightarrow> owed s1 < owed s"
    and "deletionQueue s1 = deletionQueue s"
  using assms owed_update
  by (auto simp: add_count_def owed_def split: option.splits if_splits)

lemma runDestructor_counts:
  "defers hook \<Longrightarrow> runDestructor hook R s r = (s', res) \<Longrightarrow> counts s' = counts s"
  by (auto simp: runDestructor_def split: sum.splits dest: deleteLater_each_frame [OF disjI1])

lemma release_owed:
  assumes df: "defers hook" and "releaseClassHandle hook R s r = (s', Inr u)"
  shows "owed s' < owed s \<or> (owed s' \<le> owed s \<and> deletionQueue s' = deletionQueue s)"
proof -
  obtain s1 r1 where a: "add_count s r (- 1) = (s1, r1)" by (cases "add_count s r (- 1)")
  show ?thesis
  proof (cases r1)
    case (Inl e)
    with assms a show ?thesis by (simp add: releaseClassHandle_def)
  next
    case (Inr v)
    note av = a [unfolded Inr]
    show ?thesis
    proof (cases "v = 0")
      case True
      with assms av have "runDestructor hook R s1 r = (s', Inr u)"
        by (simp add: releaseClassHandle_def)
      from runDestructor_counts [OF df this] have "owed s' = owed s1" by (simp add: owed_def)
      with add_count_owed(2) [OF av True] show ?thesis by simp
    next
      case False
      with assms av have "s' = s1" by (simp add: releaseClassHandle_def)
      with add_count_owed(1,3) [OF av] show ?thesis by simp
    qed
  qed
qed

lemma delete_owed:
  assumes df: "defers hook" and "ClassHandle_delete hook R s h = (s', Inr u)"
  shows "owed s' < owed s \<or> (owed s' \<le> owed s \<and> deletionQueue s' = deletionQueue s)"
proof -
  let ?r = "dd (handles s ! h)"
  obtain s1 r1 where rel: "releaseClassHandle hook R s ?r = (s1, r1)"
    by (cases "releaseClassHandle hook R s ?r")
  from assms rel obtain u1 where r1: "r1 = Inr u1"
    by (cases r1) (auto simp: ClassHandle_delete_def Let_def split: if_splits)
  from assms rel r1 have "owed s' = owed s1 \<and> deletionQueue s' = deletionQueue s1"
    by (auto simp: ClassHandle_delete_def Let_def owed_def split: if_splits)
  with release_owed [OF df rel [unfolded r1]] show ?thesis by simp
qed

lemma flush_step:
  assumes "deletionQueue s \<noteq> []" and "last (deletionQueue s) < length (handles s)"
  shows "flushPendingDeletes hook R s =
     (case ClassHandle_delete hook R
             (update_dd (s\<lparr>deletionQueue := butlast (deletionQueue s)\<rparr>) (last (deletionQueue s))
                (\<lambda>r. r\<lparr>deleteScheduled := False\<rparr>))
             (last (deletionQueue s)) of
        (s', Inl e) \<Rightarrow> Some (s', Inl e)
      | (s', Inr v) \<Rightarrow> flushPendingDeletes hook R s')"
  using assms by (subst flushPendingDeletes.simps) (simp add: Let_def)

lemma flush_terminates:
  assumes df: "defers hook"
  shows "\<exists>result. flushPendingDeletes hook R s = Some result"
proof -
  have w: "wf (inv_image (less_than <*lex*> less_than)
             (\<lambda>s. (owed s, length (deletionQueue s))))"
    by (intro wf_inv_image wf_lex_prod wf_less_than)
  from w show ?thesis
  proof (induction s rule: wf_induct_rule)
    case (less s)
    show ?case
    proof (cases "deletionQueue s = []")
      case True
      then show ?thesis by (subst flushPendingDeletes.simps) simp
    next
      case False
      let ?obj = "last (deletionQueue s)"
      let ?s1 = "s\<lparr>deletionQueue := butlast (deletionQueue s)\<rparr>"
      let ?s0 = "update_dd ?s1 ?obj (\<lambda>r. r\<lparr>deleteScheduled := False\<rparr>)"
      show ?thesis
      proof (cases "length (handles ?s1) \<le> ?obj")
        case True
        with False show ?thesis by (subst flushPendingDeletes.simps) (simp add: Let_def)
      next
        case in_range: False
        obtain s2 y where d: "ClassHandle_delete hook R ?s0 ?obj = (s2, y)"
          by (cases "ClassHandle_delete hook R ?s0 ?obj")
        show ?thesis
        proof (cases y)
          case (Inl e)
          with False in_range d show ?thesis
            by (subst flushPendingDeletes.simps) (simp add: Let_def)
        next
          case (Inr v)
          have o: "owed ?s0 = owed s"
            and l: "length (deletionQueue ?s0) < length (deletionQueue s)"
            using False by (simp_all add: owed_def)
          from delete_owed [OF df d [unfolded Inr]] o l
          have "(s2, s) \<in> inv_image (less_than <*lex*> less_than)
                  (\<lambda>s. (owed s, length (deletionQueue s)))"
            by auto
          from less.IH [OF this] obtain result where "flushPendingDeletes hook R s2 = Some result"
            by blast
          with False in_range d Inr show ?thesis
            by (subst flushPendingDeletes.simps) (simp add: Let_def)
        qed
      qed
    qed
  qed
qed

lemma flush_result:
  "flushPendingDeletes hook R s = Some result \<Longrightarrow>
   (\<exists>u. snd result = Inr u) \<longrightarrow>
   deletionQueue (fst result) = [] \<and>
   (defers hook \<and> pending_queued s \<longrightarrow> pending (fst result) = [])"
proof (induction rule: flushPendingDeletes.raw_induct [rotated 1, consumes 1])
  case (1 flush hook R s result)
  show ?case
  proof (cases "deletionQueue s = []")
    case True
    with "1.hyps" have "fst result = s" by auto
    with True show ?thesis by (auto simp: pending_queued_def list_all_iff)
  next
    case False
    let ?obj = "last (deletionQueue s)"
    let ?s1 = "s\<lparr>deletionQueue := butlast (deletionQueue s)\<rparr>"
    let ?s0 = "update_dd ?s1 ?obj (\<lambda>r. r\<lparr>deleteScheduled := False\<rparr>)"
    show ?thesis
    proof
      assume ok: "\<exists>u. snd result = Inr u"
      from "1.hyps" False ok have in_range: "\<not> length (handles ?s1) \<le> ?obj"
        by (auto simp: Let_def split: if_splits)
      obtain s2 y where d: "ClassHandle_delete hook R ?s0 ?obj = (s2, y)"
        by (cases "ClassHandle_delete hook R ?s0 ?obj")
      from "1.hyps" False in_range d ok obtain v where y: "y = Inr v"
        by (cases y) (auto simp: Let_def)
      from "1.hyps" False in_range d y have f: "flush hook R s2 = Some result"
        by (simp add: Let_def)
      from "1.IH" [OF f] ok
      have ih: "deletionQueue (fst result) = [] \<and>
        (defers hook \<and> pending_queued s2 \<longrightarrow> pending (fst result) = [])" by blast
      have "pending_queued s2" if "defers hook" "pending_queued s"
        using delete_pending [OF that(1) pop_pending [OF that(2) False] d] .
      with ih show "deletionQueue (fst result) = [] \<and>
        (defers hook \<and> pending_queued s \<longrightarrow> pending (fst result) = [])" by blast
    qed
  qed
qed

lemma flush_returns_empty:
  "flushPendingDeletes hook R s = Some (s', Inr u) \<Longrightarrow>
   deletionQueue s' = [] \<and> (defers hook \<and> pending_queued s \<longrightarrow> pending s' = [])"
  using flush_result [of hook R s "(s', Inr u)"] by simp

text \<open>
  Claim C9. A \<open>deleteLater\<close> on a live handle that is not already scheduled appends
  the handle to the deletion queue, calls the scheduler hook exactly when the queue was
  empty before the push and a hook is set, and when the hook has returned marks the
  handle \<open>deleteScheduled\<close>; under a hook that defers the queue is then the old one
  with the handle appended. \<open>flushPendingDeletes\<close> pops and deletes one handle per
  turn and then flushes the state it has reached, so what a destructor pushed in the
  meantime is flushed too; when it returns the queue is empty. Under a hook that defers
  it always returns, and if every scheduled handle was in the queue, no handle is
  scheduled any more.
\<close>
theorem deleteLater_flush:
  "(h < length (handles s) \<and> truthy (ptr (dd (handles s ! h))) \<and>
    \<not> (deleteScheduled (dd (handles s ! h)) \<and> \<not> preservePointerOnDelete (dd (handles s ! h))) \<longrightarrow>
      ClassHandle_deleteLater hook s h =
        (case (if deletionQueue s = []
               then (case delayFunction s of
                       None \<Rightarrow> (s\<lparr>deletionQueue := deletionQueue s @ [h]\<rparr>, Inr ())
                     | Some f \<Rightarrow> hook f (s\<lparr>deletionQueue := deletionQueue s @ [h]\<rparr>))
               else (s\<lparr>deletionQueue := deletionQueue s @ [h]\<rparr>, Inr ())) of
           (s', Inl e) \<Rightarrow> (s', Inl e)
         | (s', Inr x) \<Rightarrow> (update_dd s' h (\<lambda>r. r\<lparr>deleteScheduled := True\<rparr>), Inr h))) \<and>
   (defers hook \<and> ClassHandle_deleteLater hook s h = (s1, Inr v) \<longrightarrow>
      v = h \<and> deletionQueue s1 = deletionQueue s @ [h] \<and>
      deleteScheduled (dd (handles s1 ! h))) \<and>
   (ClassHandle_deleteLater deferring_hook s h = (s1, Inr v) \<longrightarrow>
      delayCalls s1 = delayCalls s @
        (if deletionQueue s = []
         then (case delayFunction s of None \<Rightarrow> [] | Some f \<Rightarrow> [f]) else [])) \<and>
   (flushPendingDeletes hook reenter s = Some (s2, Inr u) \<longrightarrow> deletionQueue s2 = []) \<and>
   (deletionQueue s \<noteq> [] \<and> last (deletionQueue s) < length (handles s) \<longrightarrow>
      flushPendingDeletes hook reenter s =
        (case ClassHandle_delete hook reenter
                (update_dd (s\<lparr>deletionQueue := butlast (deletionQueue s)\<rparr>)
                   (last (deletionQueue s)) (\<lambda>r. r\<lparr>deleteScheduled := False\<rparr>))
                (last (deletionQueue s)) of
           (s', Inl e) \<Rightarrow> Some (s', Inl e)
         | (s', Inr x) \<Rightarrow> flushPendingDeletes hook reenter s')) \<and>
   (defers hook \<longrightarrow>
      (\<exists>result. flushPendingDeletes hook reenter s = Some result) \<and>
      (pending_queued s \<and> flushPendingDeletes hook reenter s = Some (s2, Inr u) \<longrightarrow>
         pending s2 = []))"
proof -
  have a: "ClassHandle_deleteLater hook s h =
        (case (if deletionQueue s = []
               then (case delayFunction s of
                       None \<Rightarrow> (s\<lparr>deletionQueue := deletionQueue s @ [h]\<rparr>, Inr ())
                     | Some f \<Rightarrow> hook f (s\<lparr>deletionQueue := deletionQueue s @ [h]\<rparr>))
               else (s\<lparr>deletionQueue := deletionQueue s @ [h]\<rparr>, Inr ())) of
           (s', Inl e) \<Rightarrow> (s', Inl e)
         | (s', Inr x) \<Rightarrow> (update_dd s' h (\<lambda>r. r\<lparr>deleteScheduled := True\<rparr>), Inr h))"
    if ok: "h < length (handles s) \<and> truthy (ptr (dd (handles s ! h))) \<and>
    \<not> (deleteScheduled (dd (handles s ! h)) \<and> \<not> preservePointerOnDelete (dd (handles s ! h)))"
  proof -
    have "call_delayFunction hook (s\<lparr>deletionQueue := deletionQueue s @ [h]\<rparr>) =
        (if deletionQueue s = []
               then (case delayFunction s of
                       None \<Rightarrow> (s\<lparr>deletionQueue := deletionQueue s @ [h]\<rparr>, Inr ())
                     | Some f \<Rightarrow> hook f (s\<lparr>deletionQueue := deletionQueue s @ [h]\<rparr>))
               else (s\<lparr>deletionQueue := deletionQueue s @ [h]\<rparr>, Inr ()))"
      by (simp add: call_delayFunction_def)
    with deleteLater_accepted [OF ok, of hook] show ?thesis by simp
  qed
  have b: "v = h \<and> deletionQueue s1 = deletionQueue s @ [h] \<and>
      deleteScheduled (dd (handles s1 ! h))"
    if df: "defers hook" and d: "ClassHandle_deleteLater hook s h = (s1, Inr v)"
  proof -
    from deleteLater_effect(6) [OF df d refl] show ?thesis by simp
  qed
  have c: "delayCalls s1 = delayCalls s @
        (if deletionQueue s = []
         then (case delayFunction s of None \<Rightarrow> [] | Some f \<Rightarrow> [f]) else [])"
    if d: "ClassHandle_deleteLater deferring_hook s h = (s1, Inr v)"
    using d
    by (auto simp: ClassHandle_deleteLater_def call_deferring_hook Let_def
        split: if_splits option.splits)
  from a b c flush_returns_empty [of hook reenter s s2 u] flush_step [of s hook reenter]
    flush_terminates [of hook reenter s]
  show ?thesis by blast
qed

lemma two_handles_simps:
  "two_handles = \<lparr>handles = [\<lparr>proto = InstancePrototype 2, dd = raw_record\<lparr>count := Some 0\<rparr>\<rparr>,
        \<lparr>proto = InstancePrototype 2, dd = smart_record\<lparr>count := Some 1\<rparr>\<rparr>],
       counts = [1, 1], deletionQueue = [], delayFunction = Some 7, destructorCalls = [],
       delayCalls = []\<rparr>"
  by (simp add: two_handles_def makeClassHandle_def one_handle_simps smart_record_def truthy_def)

lemma queued_first_eq:
  "ClassHandle_deleteLater deferring_hook two_handles 0 =
     (\<lparr>handles = [\<lparr>proto = InstancePrototype 2,
           dd = raw_record\<lparr>count := Some 0, deleteScheduled := True\<rparr>\<rparr>,
        \<lparr>proto = InstancePrototype 2, dd = smart_record\<lparr>count := Some 1\<rparr>\<rparr>],
       counts = [1, 1], deletionQueue = [0], delayFunction = Some 7, destructorCalls = [],
       delayCalls = [7]\<rparr>, Inr 0)"
  by (simp add: ClassHandle_deleteLater_def call_deferring_hook two_handles_simps Let_def
      raw_record_def truthy_def update_dd_def)

lemma queued_first_simps:
  "queued_first =
     \<lparr>handles = [\<lparr>proto = InstancePrototype 2,
           dd = raw_record\<lparr>count := Some 0, deleteScheduled := True\<rparr>\<rparr>,
        \<lparr>proto = InstancePrototype 2, dd = smart_record\<lparr>count := Some 1\<rparr>\<rparr>],
       counts = [1, 1], deletionQueue = [0], delayFunction = Some 7, destructorCalls = [],
       delayCalls = [7]\<rparr>"
  by (simp add: queued_first_def queued_first_eq)

lemma flush_queued_first:
  "flushPendingDeletes deferring_hook pushes_second queued_first =
     Some (\<lparr>handles = [\<lparr>proto = InstancePrototype 2,
           dd = raw_record\<lparr>count := Some 0, ptr := None\<rparr>\<rparr>,
        \<lparr>proto = InstancePrototype 2,
           dd = smart_record\<lparr>count := Some 1, ptr := None, smartPtr := None\<rparr>\<rparr>],
       counts = [0, 0], deletionQueue = [], delayFunction = Some 7,
       destructorCalls = [NativeCall 200 16, NativeCall 900 64],
       delayCalls = [7, 7]\<rparr>, Inr ())"
  unfolding queued_first_simps
  by (simp add: flushPendingDeletes.simps Let_def
      ClassHandle_delete_def ClassHandle_deleteLater_def call_deferring_hook
      releaseClassHandle_def add_count_def
      runDestructor_def destructor_call_def update_dd_def raw_record_def smart_record_def
      truthy_def to_number_def DerivedPtr_def SharedDerived_def Derived_fields pushes_second_def)

text \<open>
  Under the hook that flushes at once, \<open>deleteLater\<close> on the only handle: the hook
  deletes the handle before \<open>deleteLater\<close> marks it.
\<close>

lemma flushed_at_once:
  "flushPendingDeletes deferring_hook no_reentry (one_handle\<lparr>deletionQueue := [0]\<rparr>) =
     Some (\<lparr>handles = [\<lparr>proto = InstancePrototype 2,
              dd = raw_record\<lparr>count := Some 0, ptr := None\<rparr>\<rparr>],
            counts = [0], deletionQueue = [], delayFunction = Some 7,
            destructorCalls = [NativeCall 200 16], delayCalls = []\<rparr>, Inr ())"
  unfolding one_handle_simps
  by (simp add: flushPendingDeletes.simps Let_def ClassHandle_delete_def
      releaseClassHandle_def add_count_def runDestructor_def destructor_call_def update_dd_def
      raw_record_def truthy_def to_number_def DerivedPtr_def Derived_fields no_reentry_def)

theorem deleteLater_flush_witness:
  "ClassHandle_deleteLater deferring_hook two_handles 0 = (queued_first, Inr 0) \<and>
   defers deferring_hook \<and>
   deletionQueue two_handles = [] \<and> deletionQueue queued_first = [0] \<and>
   delayCalls queued_first = [7] \<and> pending_queued queued_first \<and>
   (\<exists>s2. flushPendingDeletes deferring_hook pushes_second queued_first = Some (s2, Inr ()) \<and>
      deletionQueue s2 = [] \<and> pending s2 = [] \<and>
      destructorCalls s2 = [NativeCall 200 16, NativeCall 900 64] \<and> delayCalls s2 = [7, 7]) \<and>
   ClassHandle_deleteLater (flush_at_once no_reentry) one_handle 0 =
     (\<lparr>handles = [\<lparr>proto = InstancePrototype 2,
          dd = raw_record\<lparr>count := Some 0, ptr := None, deleteScheduled := True\<rparr>\<rparr>],
        counts = [0], deletionQueue = [], delayFunction = Some 7,
        destructorCalls = [NativeCall 200 16], delayCalls = []\<rparr>, Inr 0)"
proof -
  have d: "ClassHandle_deleteLater deferring_hook two_handles 0 = (queued_first, Inr 0)"
    by (simp add: queued_first_def queued_first_eq)
  have q: "deletionQueue two_handles = []" "delayCalls two_handles = []"
    "delayFunction two_handles = Some 7"
    by (simp_all add: two_handles_simps)
  have p: "pending_queued queued_first"
    by (simp add: queued_first_simps pending_queued_def pending_def raw_record_def
        smart_record_def upt_conv_Cons)
  obtain s2 where f: "flushPendingDeletes deferring_hook pushes_second queued_first = Some (s2, Inr ())"
    and c: "destructorCalls s2 = [NativeCall 200 16, NativeCall 900 64]" "delayCalls s2 = [7, 7]"
    by (simp add: flush_queued_first)
  note df = defers_deferring_hook
  from deleteLater_flush [of 0 two_handles deferring_hook queued_first 0 pushes_second s2 "()"] d q df
  have 1: "deletionQueue queued_first = [0] \<and> delayCalls queued_first = [7]" by simp
  from deleteLater_flush [of 0 queued_first deferring_hook queued_first 0 pushes_second s2 "()"] f p df
  have 2: "deletionQueue s2 = [] \<and> pending s2 = []" by blast
  have ok: "0 < length (handles one_handle) \<and> truthy (ptr (dd (handles one_handle ! 0))) \<and>
    \<not> (deleteScheduled (dd (handles one_handle ! 0)) \<and>
       \<not> preservePointerOnDelete (dd (handles one_handle ! 0)))"
    "deletionQueue one_handle = []" "delayFunction one_handle = Some 7"
    by (simp_all add: one_handle_simps raw_record_def truthy_def)
  from deleteLater_flush [of 0 one_handle "flush_at_once no_reentry" queued_first 0 pushes_second s2 "()"] ok
  have 3: "ClassHandle_deleteLater (flush_at_once no_reentry) one_handle 0 =
     (\<lparr>handles = [\<lparr>proto = InstancePrototype 2,
          dd = raw_record\<lparr>count := Some 0, ptr := None, deleteScheduled := True\<rparr>\<rparr>],
        counts = [0], deletionQueue = [], delayFunction = Some 7,
        destructorCalls = [NativeCall 200 16], delayCalls = []\<rparr>, Inr 0)"
    by (simp add: flush_at_once_def flushed_at_once update_dd_def)
  from d q 1 p f 2 c df 3 show ?thesis by blast
qed

section \<open>Properties of the unbound type walk\<close>

lemma reaches_stops:
  assumes "reaches reg deps t l" and "reg t \<or> deps t = None"
  shows "l = t"
  using assms by (cases rule: reaches.cases) auto

lemma leaves_of_leaf:
  "leaf reg deps t \<Longrightarrow> unbound_leaves reg deps [t] = {t}"
  using reaches_stops [of reg deps t]
  by (auto simp: unbound_leaves_def leaf_def intro: reaches.here)

lemma leaves_of_registered:
  "reg t \<Longrightarrow> unbound_leaves reg deps [t] = {}"
  using reaches_stops [of reg deps t]
  by (auto simp: unbound_leaves_def leaf_def)

lemma reaches_pending:
  assumes "\<not> reg t" and "deps t = Some ds" and "reaches reg deps t l" and "l \<noteq> t"
  shows "\<exists>d \<in> set ds. reaches reg deps d l"
  using assms(3)
proof (cases rule: reaches.cases)
  case here
  with assms(4) show ?thesis by simp
next
  case (through ds' d)
  with assms(2) show ?thesis by auto
qed

lemma leaves_of_pending:
  assumes "\<not> reg t" and "deps t = Some ds"
  shows "unbound_leaves reg deps [t] = unbound_leaves reg deps ds"
proof (rule set_eqI)
  fix l
  show "l \<in> unbound_leaves reg deps [t] \<longleftrightarrow> l \<in> unbound_leaves reg deps ds"
  proof
    assume "l \<in> unbound_leaves reg deps [t]"
    then have lf: "leaf reg deps l" and r: "reaches reg deps t l"
      by (simp_all add: unbound_leaves_def)
    from lf assms(2) have "l \<noteq> t" by (auto simp: leaf_def)
    from reaches_pending [OF assms r this] lf show "l \<in> unbound_leaves reg deps ds"
      by (simp add: unbound_leaves_def)
  next
    assume "l \<in> unbound_leaves reg deps ds"
    then obtain d where lf: "leaf reg deps l" and d: "d \<in> set ds" and r: "reaches reg deps d l"
      by (auto simp: unbound_leaves_def)
    from reaches.through [OF assms d r] lf show "l \<in> unbound_leaves reg deps [t]"
      by (simp add: unbound_leaves_def)
  qed
qed

lemma leaves_Cons:
  "unbound_leaves reg deps (t # ts) = unbound_leaves reg deps [t] \<union> unbound_leaves reg deps ts"
  by (auto simp: unbound_leaves_def)

lemma leaves_Nil: "unbound_leaves reg deps [] = {}"
  by (simp add: unbound_leaves_def)

lemma walk_inv_push:
  assumes "walk_inv reg deps (seen, unb)" and "t \<notin> seen" and "leaf reg deps t"
  shows "walk_inv reg deps (insert t seen, unb @ [t])"
  using assms by (simp add: walk_inv_def)

lemma walk_correct:
  "visit depth reg deps t w = Some w' \<Longrightarrow> walk_inv reg deps w \<Longrightarrow>
      walk_inv reg deps w' \<and> set (snd w') = set (snd w) \<union> unbound_leaves reg deps [t]"
  "forEach_visit depth reg deps ts w = Some w' \<Longrightarrow> walk_inv reg deps w \<Longrightarrow>
      walk_inv reg deps w' \<and> set (snd w') = set (snd w) \<union> unbound_leaves reg deps ts"
proof (induction depth reg deps t w and depth reg deps ts w arbitrary: w' and w'
    rule: visit_forEach_visit.induct)
  case (1 reg deps t w)
  then show ?case by simp
next
  case (2 depth reg deps t seen unb)
  note v = "2.prems"(1) and i = "2.prems"(2)
  show ?case
  proof (cases "t \<in> seen")
    case True
    with i have "leaf reg deps t" by (simp add: walk_inv_def list_all_iff)
    then have l: "unbound_leaves reg deps [t] = {t}" by (rule leaves_of_leaf)
    from True v have w': "w' = (seen, unb)" by simp
    from i True have "t \<in> set unb" by (simp add: walk_inv_def)
    with w' i l show ?thesis by auto
  next
    case False
    show ?thesis
    proof (cases "reg t")
      case True
      then have l: "unbound_leaves reg deps [t] = {}" by (rule leaves_of_registered)
      from False True v have w': "w' = (seen, unb)" by simp
      with i l show ?thesis by simp
    next
      case nr: False
      show ?thesis
      proof (cases "deps t")
        case None
        with nr have lf: "leaf reg deps t" by (simp add: leaf_def)
        then have l: "unbound_leaves reg deps [t] = {t}" by (rule leaves_of_leaf)
        from False nr None v have w': "w' = (insert t seen, unb @ [t])" by simp
        from walk_inv_push [OF i False lf] w' l show ?thesis by simp
      next
        case (Some ds)
        with False nr v have f: "forEach_visit depth reg deps ds (seen, unb) = Some w'" by simp
        from "2.IH" [OF False nr Some f i] leaves_of_pending [of reg t deps ds, OF nr Some] show ?thesis by simp
      qed
    qed
  qed
next
  case (3 depth reg deps w)
  then show ?case by (simp add: leaves_Nil)
next
  case (4 depth reg deps d ds w)
  from "4.prems"(1) obtain w1 where v: "visit depth reg deps d w = Some w1"
    and r: "forEach_visit depth reg deps ds w1 = Some w'"
    by (cases "visit depth reg deps d w") simp_all
  from "4.IH"(1) [OF v "4.prems"(2)] have 1: "walk_inv reg deps w1"
    "set (snd w1) = set (snd w) \<union> unbound_leaves reg deps [d]" by simp_all
  from "4.IH"(2) [OF v r 1(1)] have 2: "walk_inv reg deps w'"
    "set (snd w') = set (snd w1) \<union> unbound_leaves reg deps ds" by simp_all
  have "unbound_leaves reg deps (d # ds) = unbound_leaves reg deps [d] \<union> unbound_leaves reg deps ds"
    by (rule leaves_Cons)
  with 1 2 show ?case by (simp add: Un_assoc)
qed

lemma walk_ends:
  "ranked reg deps rank \<Longrightarrow> rank t < depth \<Longrightarrow> visit depth reg deps t w \<noteq> None"
  "ranked reg deps rank \<Longrightarrow> list_all (\<lambda>t. rank t < depth) ts \<Longrightarrow>
     forEach_visit depth reg deps ts w \<noteq> None"
proof (induction depth reg deps t w and depth reg deps ts w
    rule: visit_forEach_visit.induct)
  case (1 reg deps t w)
  then show ?case by simp
next
  case (2 depth reg deps t seen unb)
  show ?case
  proof (cases "t \<notin> seen \<and> \<not> reg t \<and> deps t \<noteq> None")
    case False
    then show ?thesis by auto
  next
    case True
    then obtain ds where ds: "deps t = Some ds" by auto
    have "rank d < depth" if "d \<in> set ds" for d
    proof -
      from "2.prems"(1) True ds that have "rank d < rank t"
        unfolding ranked_def by blast
      with "2.prems"(2) show ?thesis by simp
    qed
    then have "list_all (\<lambda>d. rank d < depth) ds" by (simp add: list_all_iff)
    with "2.IH" [of ds] True ds "2.prems"(1) show ?thesis by simp
  qed
next
  case (3 depth reg deps w)
  then show ?case by simp
next
  case (4 depth reg deps d ds w)
  from "4.prems" "4.IH"(1) obtain w1 where v: "visit depth reg deps d w = Some w1" by auto
  from "4.IH"(2) [OF v] "4.prems" v show ?case by simp
qed

lemma walk_deeper:
  "visit depth reg deps t w = Some w' \<Longrightarrow> visit (Suc depth) reg deps t w = Some w'"
  "forEach_visit depth reg deps ts w = Some w' \<Longrightarrow> forEach_visit (Suc depth) reg deps ts w = Some w'"
proof (induction depth reg deps t w and depth reg deps ts w arbitrary: w' and w'
    rule: visit_forEach_visit.induct)
  case (1 reg deps t w)
  then show ?case by simp
next
  case (2 depth reg deps t seen unb)
  show ?case
  proof (cases "t \<notin> seen \<and> \<not> reg t \<and> deps t \<noteq> None")
    case False
    with "2.prems" show ?thesis by (auto split: option.splits if_splits)
  next
    case True
    then obtain ds where ds: "deps t = Some ds" by auto
    with True "2.prems" have "forEach_visit depth reg deps ds (seen, unb) = Some w'" by simp
    from "2.IH" [OF _ _ ds this] True ds show ?thesis by simp
  qed
next
  case (3 depth reg deps w)
  then show ?case by simp
next
  case (4 depth reg deps d ds w)
  from "4.prems" obtain w1 where v: "visit depth reg deps d w = Some w1"
    and r: "forEach_visit depth reg deps ds w1 = Some w'"
    by (cases "visit depth reg deps d w") simp_all
  from "4.IH"(1) [OF v] "4.IH"(2) [OF v r] show ?case by simp
qed

lemma walk_any_deeper:
  "forEach_visit depth reg deps ts w = Some w' \<Longrightarrow>
   forEach_visit (depth + k) reg deps ts w = Some w'"
  by (induction k) (simp_all add: walk_deeper(2))

text \<open>
  Claim C3, as amended. When the recorded dependencies have no cycle among
  unregistered ids, the walk of \<open>throwUnboundTypeError\<close> ends (in every call stack
  that allows more nested calls than the rank of the given ids, and there is such a
  stack), and the \<open>UnboundTypeError\<close> lists exactly the unregistered leaves that the
  given ids reach through dependencies of unregistered ids, each once.
\<close>
theorem throwUnboundTypeError_lists_leaves:
  assumes "ranked registeredTypes typeDependencies rank"
  shows "\<exists>unboundTypes.
      distinct unboundTypes \<and>
      set unboundTypes = unbound_leaves registeredTypes typeDependencies types \<and>
      (\<forall>depth. list_all (\<lambda>t. rank t < depth) types \<longrightarrow>
         forEach_visit depth registeredTypes typeDependencies types ({}, []) =
           Some (set unboundTypes, unboundTypes) \<and>
         throwUnboundTypeError depth registeredTypes typeDependencies getTypeName message types =
           UnboundTypeError (message @ '': '' @ join '', '' (map getTypeName unboundTypes))) \<and>
      (\<exists>depth. list_all (\<lambda>t. rank t < depth) types)"
proof -
  let ?D = "Suc (sum_list (map rank types))"
  have "rank t < ?D" if "t \<in> set types" for t
  proof -
    from that have "rank t \<in> set (map rank types)" by simp
    then have "rank t \<le> sum_list (map rank types)" by (simp add: member_le_sum_list)
    then show ?thesis by simp
  qed
  then have D: "list_all (\<lambda>t. rank t < ?D) types" by (simp add: list_all_iff)
  from walk_ends(2) [OF assms D, of "({}, [])"] obtain seen unb
    where f: "forEach_visit ?D registeredTypes typeDependencies types ({}, []) = Some (seen, unb)"
    by auto
  have "walk_inv registeredTypes typeDependencies ({}, [])" by (simp add: walk_inv_def)
  from walk_correct(2) [OF f this]
  have d: "distinct unb" and u: "set unb = unbound_leaves registeredTypes typeDependencies types"
    and sn: "seen = set unb"
    by (simp_all add: walk_inv_def)
  have a: "forEach_visit depth registeredTypes typeDependencies types ({}, []) =
           Some (set unb, unb) \<and>
         throwUnboundTypeError depth registeredTypes typeDependencies getTypeName message types =
           UnboundTypeError (message @ '': '' @ join '', '' (map getTypeName unb))"
    if r: "list_all (\<lambda>t. rank t < depth) types" for depth
  proof -
    from walk_ends(2) [OF assms r, of "({}, [])"] obtain w
      where g: "forEach_visit depth registeredTypes typeDependencies types ({}, []) = Some w"
      by auto
    from walk_any_deeper [OF g, of ?D]
    have 1: "forEach_visit (depth + ?D) registeredTypes typeDependencies types ({}, []) = Some w" .
    from walk_any_deeper [OF f, of depth]
    have 2: "forEach_visit (?D + depth) registeredTypes typeDependencies types ({}, []) =
        Some (seen, unb)" .
    from 1 2 have "w = (seen, unb)" by (simp add: add.commute)
    with g sn show ?thesis by (simp add: throwUnboundTypeError_def)
  qed
  from a d u D show ?thesis by blast
qed

lemma example_ranked: "ranked example_registered example_dependencies example_rank"
  by (auto simp: ranked_def example_registered_def example_dependencies_def example_rank_def
      split: if_splits)

lemma example_walk:
  "forEach_visit 3 example_registered example_dependencies [10] ({}, []) = Some ({12, 14}, [12, 14])"
  by (simp add: numeral_3_eq_3 example_registered_def example_dependencies_def insert_commute)

theorem throwUnboundTypeError_lists_leaves_witness:
  "ranked example_registered example_dependencies example_rank \<and>
   list_all (\<lambda>t. example_rank t < 3) [10] \<and>
   throwUnboundTypeError 3 example_registered example_dependencies example_name
       ''Cannot call f due to unbound types'' [10] =
     UnboundTypeError ''Cannot call f due to unbound types: B, C'' \<and>
   unbound_leaves example_registered example_dependencies [10] = {12, 14}"
proof -
  have r: "list_all (\<lambda>t. example_rank t < 3) [10]" by (simp add: example_rank_def)
  from throwUnboundTypeError_lists_leaves [OF example_ranked, of "[10]" example_name
      "''Cannot call f due to unbound types''"] r obtain unb
    where f: "forEach_visit 3 example_registered example_dependencies [10] ({}, []) =
        Some (set unb, unb)"
      and t: "throwUnboundTypeError 3 example_registered example_dependencies example_name
          ''Cannot call f due to unbound types'' [10] =
        UnboundTypeError (''Cannot call f due to unbound types'' @ '': '' @
          join '', '' (map example_name unb))"
      and u: "set unb = unbound_leaves example_registered example_dependencies [10]"
    by blast
  from f example_walk have ub: "unb = [12, 14]" by simp
  with u have l: "unbound_leaves example_registered example_dependencies [10] = {12, 14}" by simp
  from t ub have t': "throwUnboundTypeError 3 example_registered example_dependencies example_name
       ''Cannot call f due to unbound types'' [10] =
     UnboundTypeError ''Cannot call f due to unbound types: B, C''"
    by (simp add: example_name_def)
  from example_ranked r t' l show ?thesis by simp
qed

lemma cycle_never_ends:
  "visit depth nothing_registered cyclic_dependencies 21 ({}, []) = None \<and>
   visit depth nothing_registered cyclic_dependencies 22 ({}, []) = None"
  by (induction depth) (simp_all add: nothing_registered_def cyclic_dependencies_def)

lemma parent_hides_leaf:
  "forEach_visit (Suc depth) parent_registered parent_dependencies [31] ({}, []) = Some ({}, [])"
  by (simp add: parent_registered_def)

theorem throwUnboundTypeError_counterexample:
  "(\<forall>depth. throwUnboundTypeError depth nothing_registered cyclic_dependencies example_name
      ''Cannot call f due to unbound types'' [21] = RangeError) \<and>
   reachable parent_dependencies 31 32 \<and> leaf parent_registered parent_dependencies 32 \<and>
   (\<forall>depth. throwUnboundTypeError (Suc depth) parent_registered parent_dependencies example_name
      ''Cannot call f due to unbound types'' [31] =
      UnboundTypeError ''Cannot call f due to unbound types: '')"
proof -
  have 1: "\<forall>depth. throwUnboundTypeError depth nothing_registered cyclic_dependencies example_name
      ''Cannot call f due to unbound types'' [21] = RangeError"
    by (simp add: throwUnboundTypeError_def cycle_never_ends)
  have "parent_dependencies 31 = Some [32]" by (simp add: parent_dependencies_def)
  with reachable.step [of parent_dependencies 31 "[32]" 32 32]
  have 2: "reachable parent_dependencies 31 32" by (simp add: reachable.start)
  have 3: "leaf parent_registered parent_dependencies 32"
    by (simp add: leaf_def parent_registered_def parent_dependencies_def)
  have 4: "\<forall>depth. throwUnboundTypeError (Suc depth) parent_registered parent_dependencies
      example_name ''Cannot call f due to unbound types'' [31] =
      UnboundTypeError ''Cannot call f due to unbound types: ''"
    unfolding throwUnboundTypeError_def parent_hides_leaf by simp
  from 1 2 3 4 show ?thesis by blast
qed

section \<open>Behaviour of the overload table\<close>

lemma string_of_digit: "n < 10 \<Longrightarrow> string_of_nat n = [''0123456789'' ! n]"
  by (subst string_of_nat.simps) simp

lemma Module_f1_f: "Module_f1 = ((\<lambda>k. None)(''f'' \<mapsto> Function (stub1\<lparr>numArguments := Some 1\<rparr>)))"
  by (simp add: Module_f1_def exposePublicSymbol_def)

lemma Module_f2_f:
  "Module_f2 = (Module_f1(''f'' \<mapsto> Dispatcher ''f'' [(Index 2, stub2), (Undefined_key, stub1\<lparr>numArguments := Some 1\<rparr>)]))"
  by (simp add: Module_f2_def Module_f1_f exposePublicSymbol_def ensureOverloadTable_def
      string_of_digit stub1_def)

text \<open>
  Claim C4, on the code. The first registration stores the callable directly, and the
  second puts a dispatcher in its place. But \<open>exposePublicSymbol\<close> records the
  arity of the first callable as \<open>numArguments\<close> while \<open>ensureOverloadTable\<close>
  files it under its \<open>argCount\<close>, which is \<open>undefined\<close>: after registering
  \<open>f\<close> with one and with two parameters, \<open>f(a, b)\<close> calls the second callable,
  \<open>f(a)\<close> fails as \<open>f(a, b, c)\<close> does, and the error shows the source text
  of the functions in the table, not the registered arities.
\<close>

theorem exposePublicSymbol_first_overload_lost:
  "Module_f1 ''f'' = Some (Function (stub1\<lparr>numArguments := Some 1\<rparr>)) \<and>
   Module_f2 ''f'' =
     Some (Dispatcher ''f'' [(Index 2, stub2), (Undefined_key, stub1\<lparr>numArguments := Some 1\<rparr>)]) \<and>
   call_symbol Module_f2 ''f'' [7, 8] = Inr (stub2, [7, 8]) \<and>
   call_symbol Module_f2 ''f'' [7] =
     Inl (BindingError (''Function '' @ quote @ ''f'' @ quote @
       '' called with an invalid number of arguments (1) - expects one of (,,function() { stub2 })!'')) \<and>
   call_symbol Module_f2 ''f'' [7, 8, 9] =
     Inl (BindingError (''Function '' @ quote @ ''f'' @ quote @
       '' called with an invalid number of arguments (3) - expects one of (,,function() { stub2 })!''))"
  by (simp add: Module_f2_f Module_f1_f call_symbol_def table_toString_def string_of_digit
      stub2_def upt_conv_Cons)

section \<open>Properties of the invoker\<close>

lemma runDestructors_trace:
  "runDestructors ds trace = trace @ map (\<lambda>d. Destructor (fst d) (snd d)) (rev ds)"
proof (induction ds trace rule: runDestructors.induct)
  case (1 ds trace)
  show ?case
  proof (cases "ds = []")
    case True
    then show ?thesis by (subst runDestructors.simps) simp
  next
    case False
    let ?e = "Destructor (fst (last ds)) (snd (last ds))"
    have "rev (butlast ds @ [last ds]) = last ds # rev (butlast ds)" by simp
    with False have "rev ds = last ds # rev (butlast ds)"
      by simp
    then have m: "map (\<lambda>d. Destructor (fst d) (snd d)) (rev ds) =
        ?e # map (\<lambda>d. Destructor (fst d) (snd d)) (rev (butlast ds))"
      by (simp only: list.map)
    have "runDestructors ds trace = runDestructors (butlast ds) (trace @ [?e])"
      using False by (subst runDestructors.simps) simp
    also have "\<dots> = (trace @ [?e]) @
        map (\<lambda>d. Destructor (fst d) (snd d)) (rev (butlast ds))"
      by (rule "1.IH" [OF False])
    also have "\<dots> = trace @ map (\<lambda>d. Destructor (fst d) (snd d)) (rev ds)"
      unfolding m by simp
    finally show ?thesis .
  qed
qed

lemma static_destructors_trace:
  "static_destructors self tw ws i trace = (trace', Inr u) \<Longrightarrow>
   trace' = trace @ concat (map (\<lambda>j. static_destructor self j (if j = 1 then tw else ws ! (j - 2)))
                              [i..<length (argTypes self)])"
proof (induction self tw ws i trace rule: static_destructors.induct)
  case (1 self tw ws i trace)
  show ?case
  proof (cases "i < length (argTypes self)")
    case False
    with "1.prems" show ?thesis by (simp add: static_destructors.simps [of self tw ws i])
  next
    case True
    then have upt: "[i..<length (argTypes self)] = i # [Suc i..<length (argTypes self)]"
      by (simp add: upt_conv_Cons)
    show ?thesis
    proof (cases "argTypes self ! i")
      case None
      with True "1.prems" show ?thesis
        by (simp add: static_destructors.simps [of self tw ws i])
    next
      case (Some t)
      show ?thesis
      proof (cases "destructorFunction t")
        case Destructor_undefined
        with True Some "1.prems" show ?thesis
          by (simp add: static_destructors.simps [of self tw ws i])
      next
        case Destructor_null
        with True Some "1.prems"
        have "static_destructors self tw ws (Suc i) trace = (trace', Inr u)"
          by (simp add: static_destructors.simps [of self tw ws i])
        from "1.IH"(1) [OF True refl Some Destructor_null this] Some Destructor_null
        show ?thesis unfolding upt by (simp add: static_destructor_def)
      next
        case (Destructor_function f)
        let ?param = "if i = 1 then tw else ws ! (i - 2)"
        from True Some Destructor_function "1.prems"
        have "static_destructors self tw ws (Suc i) (trace @ [Destructor f ?param]) = (trace', Inr u)"
          by (simp add: static_destructors.simps [of self tw ws i])
        from "1.IH"(2) [OF True refl Some Destructor_function this] Some Destructor_function
        show ?thesis unfolding upt by (simp add: static_destructor_def)
      qed
    qed
  qed
qed

lemma convert_arguments_effect:
  "convert_arguments self i vs st = (st', Inr u) \<Longrightarrow>
   i + length vs \<le> length (argsWired (fst st)) \<Longrightarrow>
   snd st' = snd st @ map (\<lambda>p. ToWireType (fst p) (snd p)) (List.enumerate (i + 2) vs) \<and>
   destructors (fst st') =
     destructors (fst st) @ concat (map (queued_by self) (List.enumerate (i + 2) vs)) \<and>
   invokerFuncArgs (fst st') =
     invokerFuncArgs (fst st) @ map (wire_value self) (List.enumerate (i + 2) vs) \<and>
   argsWired (fst st') =
     take i (argsWired (fst st)) @ map (wire_value self) (List.enumerate (i + 2) vs) @
     drop (i + length vs) (argsWired (fst st))"
proof (induction vs arbitrary: i st)
  case Nil
  then show ?case by simp
next
  case (Cons v vs)
  from Cons.prems(2) have i: "i < length (argsWired (fst st))" by simp
  from Cons.prems(1) obtain t where t: "argTypes self ! (i + 2) = Some t"
    by (cases "argTypes self ! (i + 2)") auto
  from Cons.prems(1) t obtain wired pushed where w: "toWireType t v = Inr (wired, pushed)"
    by (cases "toWireType t v") auto
  let ?st1 = "((fst st)\<lparr>argsWired := (argsWired (fst st))[i := wired],
                            destructors := destructors (fst st) @ pushed,
                            invokerFuncArgs := invokerFuncArgs (fst st) @ [wired]\<rparr>,
                  snd st @ [ToWireType (i + 2) v])"
  from Cons.prems(1) t w have c: "convert_arguments self (Suc i) vs ?st1 = (st', Inr u)" by simp
  have l: "Suc i + length vs \<le> length (argsWired (fst ?st1))" using Cons.prems(2) by simp
  note ih = Cons.IH [OF c l]
  have wv: "wire_value self (i + 2, v) = wired" and qb: "queued_by self (i + 2, v) = pushed"
    using t w by (simp_all add: wire_value_def queued_by_def)
  have tk: "take (Suc i) ((argsWired (fst st))[i := wired]) = take i (argsWired (fst st)) @ [wired]"
    using i by (simp add: take_Suc_conv_app_nth)
  have dr: "drop (Suc i + length vs) ((argsWired (fst st))[i := wired]) =
      drop (i + length (v # vs)) (argsWired (fst st))"
    by simp
  from ih wv qb tk dr show ?case by simp
qed

lemma convert_this_effect:
  assumes "convert_this self this st = (st', Inr tw)"
  shows "snd st' = snd st @ map (\<lambda>p. ToWireType (fst p) (snd p))
                            (if isClassMethodFunc self then [(1, this)] else [])"
    and "destructors (fst st') = destructors (fst st) @
           concat (map (queued_by self) (if isClassMethodFunc self then [(1, this)] else []))"
    and "invokerFuncArgs (fst st') = invokerFuncArgs (fst st) @
           map (wire_value self) (if isClassMethodFunc self then [(1, this)] else [])"
    and "argsWired (fst st') = argsWired (fst st)"
    and "isClassMethodFunc self \<Longrightarrow> tw = wire_value self (1, this)"
  using assms
  by (auto simp: convert_this_def wire_value_def queued_by_def
      split: if_splits option.splits sum.splits prod.splits)

lemma enumerate_places:
  "map (\<lambda>j. f j (map g (List.enumerate n vs) ! (j - n))) [n..<n + length vs] =
   map (\<lambda>p. f (fst p) (g p)) (List.enumerate n vs)"
  by (rule nth_equalityI) (simp_all add: nth_enumerate_eq)

lemma onDone_effect:
  assumes "onDone self tw rv st = (st', Inr result)"
  shows "snd st' = snd st @
      (if needsDestructorStack self
       then map (\<lambda>d. Destructor (fst d) (snd d)) (rev (destructors (fst st)))
       else concat (map (\<lambda>j. static_destructor self j
                               (if j = 1 then tw else argsWired (fst st) ! (j - 2)))
                      [(if isClassMethodFunc self then 1 else 2)..<length (argTypes self)])) @
      (if returns self then [FromWireType rv] else [])"
    and "if returns self
         then \<exists>t v. argTypes self ! 0 = Some t \<and> fromWireType t rv = Inr v \<and> result = Some v
         else result = None"
proof -
  let ?start = "if isClassMethodFunc self then 1 else 2"
  let ?D = "if needsDestructorStack self
       then map (\<lambda>d. Destructor (fst d) (snd d)) (rev (destructors (fst st)))
       else concat (map (\<lambda>j. static_destructor self j
                               (if j = 1 then tw else argsWired (fst st) ! (j - 2)))
                      [?start..<length (argTypes self)])"
  let ?d = "if needsDestructorStack self
            then (((fst st)\<lparr>destructors := []\<rparr>,
                   runDestructors (destructors (fst st)) (snd st)), Inr ())
            else (case static_destructors self tw (argsWired (fst st)) ?start (snd st) of
                    (trace1, r) \<Rightarrow> ((fst st, trace1), r))"
  obtain st1 r1 where d: "?d = (st1, r1)" by (cases ?d)
  from assms d obtain u where r1: "r1 = Inr u"
    by (cases r1) (auto simp: onDone_def)
  have t1: "snd st1 = snd st @ ?D"
  proof (cases "needsDestructorStack self")
    case True
    with d show ?thesis by (auto simp: runDestructors_trace)
  next
    case False
    obtain tr r where s: "static_destructors self tw (argsWired (fst st)) ?start (snd st) = (tr, r)"
      by (cases "static_destructors self tw (argsWired (fst st)) ?start (snd st)")
    with d False r1 have "tr = snd st1" "r = Inr u" by auto
    with static_destructors_trace [of self tw "argsWired (fst st)" ?start "snd st" tr u] s False
    show ?thesis by simp
  qed
  have all: "snd st' = snd st1 @ (if returns self then [FromWireType rv] else []) \<and>
    (if returns self
         then \<exists>t v. argTypes self ! 0 = Some t \<and> fromWireType t rv = Inr v \<and> result = Some v
         else result = None)"
  proof (cases "returns self")
    case False
    with assms d r1 show ?thesis by (auto simp: onDone_def)
  next
    case True
    with assms d r1 show ?thesis
      by (auto simp: onDone_def split: option.splits sum.splits)
  qed
  with t1 show "snd st' = snd st @ ?D @ (if returns self then [FromWireType rv] else [])"
    by simp
  from all show "if returns self
         then \<exists>t v. argTypes self ! 0 = Some t \<and> fromWireType t rv = Inr v \<and> result = Some v
         else result = None" by blast
qed

lemma craft_fields:
  assumes "craftInvokerFunction dyn n name' types classType invokerFunc targetFunc = Inr self"
  shows "expectedArgCount self = length types - 2" and "argTypes self = types"
    and "cppInvokerFunc self = invokerFunc" and "cppTargetFunc self = targetFunc"
    and "returns self = (\<exists>t. types ! 0 = Some t \<and> type_name t \<noteq> ''void'')"
    and "2 \<le> length types" and "dynamicExecution self = dyn"
  using assms
  by (auto simp: craftInvokerFunction_def Let_def split: if_splits option.splits)

text \<open>
  A call with a number of arguments other than the number of parameters the invoker was
  built for fails with the \<open>BindingError\<close> of the arity check, and nothing else has
  happened: the arrays and the events are as before.
\<close>
lemma invoke_arity:
  assumes "craftInvokerFunction dyn n name' types classType invokerFunc targetFunc = Inr self"
    and "length arguments \<noteq> length types - 2"
  shows "invoke self this arguments st =
           (st, Inl (BindingError (arity_message self (length arguments))))"
  using assms(2) craft_fields(1) [OF assms(1)] by (simp add: invoke_def)

lemma static_places:
  assumes "length (argTypes self) = 2 + length arguments"
    and "isClassMethodFunc self \<longrightarrow> tw = wire_value self (1, this)"
  shows "concat (map (\<lambda>j. static_destructor self j
                     (if j = 1 then tw
                      else map (wire_value self) (List.enumerate 2 arguments) ! (j - 2)))
            [(if isClassMethodFunc self then 1 else 2)..<length (argTypes self)]) =
         concat (map (\<lambda>p. static_destructor self (fst p) (wire_value self p))
            (parameters self this arguments))"
proof -
  let ?ws = "map (wire_value self) (List.enumerate 2 arguments)"
  let ?f = "\<lambda>j. static_destructor self j (if j = 1 then tw else ?ws ! (j - 2))"
  have "map ?f [2..<2 + length arguments] =
      map (\<lambda>j. static_destructor self j (?ws ! (j - 2))) [2..<2 + length arguments]"
    by (rule map_cong [OF refl]) auto
  also have "\<dots> = map (\<lambda>p. static_destructor self (fst p) (wire_value self p))
      (List.enumerate 2 arguments)"
    by (rule enumerate_places)
  finally have rest: "map ?f [2..<2 + length arguments] =
      map (\<lambda>p. static_destructor self (fst p) (wire_value self p)) (List.enumerate 2 arguments)" .
  show ?thesis
  proof (cases "isClassMethodFunc self")
    case False
    then show ?thesis
      unfolding assms(1) parameters_def by (simp only: rest if_False append_Nil)
  next
    case True
    have "(1::nat) < 2 + length arguments" by simp
    from upt_conv_Cons [OF this]
    have u: "[1..<2 + length arguments] = 1 # [2..<2 + length arguments]"
      by (simp only: Suc_1)
    from True assms(2) have tw: "tw = wire_value self (1, this)" by simp
    from True show ?thesis
      unfolding assms(1) parameters_def
      by (simp only: if_True u list.map rest concat.simps append_Cons append_Nil fst_conv
          concat_append map_append simp_thms tw [symmetric])
  qed
qed


text \<open>
  What a call does when no call of the invoker runs inside it (the native function keeps
  the arrays), and in every case for an invoker built by code generation: a call that
  succeeds has converted \<open>this\<close> and the arguments in order, made the native call on
  the wire values, run exactly the destructors owed to its parameters, and only then
  converted the return value with \<open>fromWireType\<close> of the return type, which it does
  exactly when the return type is not \<open>void\<close>.
\<close>
proposition invoke_cleanup:
  assumes craft: "craftInvokerFunction dyn n name' types classType invokerFunc targetFunc = Inr self"
    and alone: "dyn \<or> (keeps_arrays invokerFunc \<and> length (argsWired shared) = length types - 2)"
    and call: "invoke self this arguments (shared, trace) = ((shared', trace'), Inr result)"
  shows "length arguments = length types - 2 \<and>
    (\<exists>a a' events rv.
       invokerFunc (targetFunc # map (wire_value self) (parameters self this arguments)) a =
         (a', events, Inr rv) \<and>
       trace' = trace @
         map (\<lambda>p. ToWireType (fst p) (snd p)) (parameters self this arguments) @
         [Invoke targetFunc (map (wire_value self) (parameters self this arguments))] @
         events @
         parameter_destructors self (parameters self this arguments) @
         (if returns self then [FromWireType rv] else []) \<and>
       (if returns self
        then \<exists>t v. types ! 0 = Some t \<and> fromWireType t rv = Inr v \<and> result = Some v
        else result = None))"
proof -
  note c = craft_fields [OF craft]
  let ?ps = "parameters self this arguments"
  let ?conv = "\<lambda>p. ToWireType (fst p) (snd p)"
  from call have len: "length arguments = expectedArgCount self"
    by (auto simp: invoke_def split: if_splits)
  let ?own = "(if dynamicExecution self then new_arrays self else shared)
                \<lparr>destructors := [], invokerFuncArgs := [cppTargetFunc self]\<rparr>"
  let ?sh = "\<lambda>a. if dynamicExecution self then shared else a"
  have own: "length (argsWired ?own) = length arguments" "destructors ?own = []"
    "invokerFuncArgs ?own = [targetFunc]"
    using alone c(1,4,7) len by (auto simp: new_arrays_def)
  obtain st1 r1 where ct: "convert_this self this (?own, trace) = (st1, r1)"
    by (cases "convert_this self this (?own, trace)")
  from call len ct obtain tw where r1: "r1 = Inr tw"
    by (cases r1) (auto simp: invoke_def Let_def cong del: if_weak_cong)
  obtain st2 r2 where ca: "convert_arguments self 0 arguments st1 = (st2, r2)"
    by (cases "convert_arguments self 0 arguments st1")
  from call len ct r1 ca obtain u where r2: "r2 = Inr u"
    by (cases r2) (auto simp: invoke_def Let_def cong del: if_weak_cong)
  note e1 = convert_this_effect [OF ct [unfolded r1]]
  have l1: "0 + length arguments \<le> length (argsWired (fst st1))"
    using e1(4) own(1) by simp
  note e2 = convert_arguments_effect [OF ca [unfolded r2] l1]
  have tr2: "snd st2 = trace @ map ?conv ?ps"
    using e1(1) e2 by (simp add: parameters_def numeral_2_eq_2)
  have ds2: "destructors (fst st2) = concat (map (queued_by self) ?ps)"
    using e1(2) e2 own(2) by (simp add: parameters_def numeral_2_eq_2)
  have fa2: "invokerFuncArgs (fst st2) = targetFunc # map (wire_value self) ?ps"
    using e1(3) e2 own(3) by (simp add: parameters_def numeral_2_eq_2)
  have aw2: "argsWired (fst st2) = map (wire_value self) (List.enumerate 2 arguments)"
    using e2 e1(4) own(1) by (simp add: numeral_2_eq_2)
  let ?t3 = "snd st2 @ [Invoke (cppTargetFunc self) (tl (invokerFuncArgs (fst st2)))]"
  obtain a3 events r3
    where nat: "invokerFunc (invokerFuncArgs (fst st2)) (?sh (fst st2)) = (a3, events, r3)"
    by (cases "invokerFunc (invokerFuncArgs (fst st2)) (?sh (fst st2))") auto
  from call len ct r1 ca r2 nat c(3) obtain rv where r3: "r3 = Inr rv"
    by (cases r3) (auto simp: invoke_def Let_def cong del: if_weak_cong)
  let ?A = "if dynamicExecution self then fst st2 else a3"
  have A: "?A = fst st2"
  proof (cases "dynamicExecution self")
    case True
    then show ?thesis by simp
  next
    case False
    with alone c(7) have "fst (invokerFunc (invokerFuncArgs (fst st2)) (fst st2)) = fst st2"
      by (simp add: keeps_arrays_def)
    with nat False show ?thesis by simp
  qed
  obtain st4 r4 where od: "onDone self tw rv (?A, ?t3 @ events) = (st4, r4)"
    by (cases "onDone self tw rv (?A, ?t3 @ events)")
  from call len ct r1 ca r2 nat r3 od c(3) have fin: "trace' = snd st4" "r4 = Inr result"
    by (simp_all add: invoke_def Let_def cong del: if_weak_cong)
  from od A fin(2) have od': "onDone self tw rv (fst st2, ?t3 @ events) = (st4, Inr result)"
    by simp
  note e4 = onDone_effect [OF od', unfolded fst_conv snd_conv]
  have lt: "length (argTypes self) = 2 + length arguments"
    using c(1,2,6) len by simp
  have D: "(if needsDestructorStack self
       then map (\<lambda>d. Destructor (fst d) (snd d)) (rev (destructors (fst st2)))
       else concat (map (\<lambda>j. static_destructor self j
                               (if j = 1 then tw else argsWired (fst st2) ! (j - 2)))
                      [(if isClassMethodFunc self then 1 else 2)..<length (argTypes self)])) =
     parameter_destructors self ?ps"
  proof (cases "needsDestructorStack self")
    case True
    with ds2 show ?thesis by (simp add: parameter_destructors_def)
  next
    case False
    have "isClassMethodFunc self \<longrightarrow> tw = wire_value self (1, this)"
      using e1(5) by simp
    note sp = static_places [OF lt this]
    from False show ?thesis
      unfolding parameter_destructors_def aw2 by (simp only: if_False sp)
  qed
  have t: "trace' = trace @ map ?conv ?ps @ [Invoke targetFunc (map (wire_value self) ?ps)] @
      events @ parameter_destructors self ?ps @ (if returns self then [FromWireType rv] else [])"
    using e4(1) [unfolded D] fin(1) tr2 fa2 c(4) by simp
  from nat r3 fa2
  have n: "invokerFunc (targetFunc # map (wire_value self) ?ps) (?sh (fst st2)) =
      (a3, events, Inr rv)" by simp
  from e4(2)
  have r: "if returns self
        then \<exists>t v. types ! 0 = Some t \<and> fromWireType t rv = Inr v \<and> result = Some v
        else result = None" unfolding c(2) .
  from len c(1) have l: "length arguments = length types - 2" by simp
  have "\<exists>a a' events rv.
       invokerFunc (targetFunc # map (wire_value self) ?ps) a = (a', events, Inr rv) \<and>
       trace' = trace @ map ?conv ?ps @ [Invoke targetFunc (map (wire_value self) ?ps)] @
         events @ parameter_destructors self ?ps @
         (if returns self then [FromWireType rv] else []) \<and>
       (if returns self
        then \<exists>t v. types ! 0 = Some t \<and> fromWireType t rv = Inr v \<and> result = Some v
        else result = None)"
    by (rule exI [of _ "?sh (fst st2)"], rule exI [of _ a3], rule exI [of _ events],
        rule exI [of _ rv]) (intro conjI n t r)
  with l show ?thesis by (rule conjI)
qed


lemma example_crafted:
  "craftInvokerFunction dyn 6 ''f'' [Some int_type, None, Some string_type] None native_sum 9 =
     Inr (example_invoker dyn)"
  by (simp add: craftInvokerFunction_def example_invoker_def int_type_def string_type_def)

lemma reentrant_crafted:
  "craftInvokerFunction dyn 6 ''f'' [Some int_type, None, Some string_type] None
     (calling_back (example_invoker dyn) [7]) 9 = Inr (reentrant_invoker dyn)"
  by (simp add: craftInvokerFunction_def reentrant_invoker_def example_invoker_def
      int_type_def string_type_def)

lemma pointer_crafted:
  "craftInvokerFunction dyn 6 ''g'' [Some int_type, None, Some pointer_type] None native_sum 9 =
     Inr (pointer_invoker dyn)"
  by (simp add: craftInvokerFunction_def pointer_invoker_def int_type_def pointer_type_def)

lemmas invoke_defs = invoke_def Let_def convert_this_def onDone_def static_destructors.simps
  runDestructors.simps native_sum_def string_type_def int_type_def pointer_type_def
  new_arrays_def

lemma called_back:
  "invoke (example_invoker False) 0 [7]
     (\<lparr>argsWired = [1005], invokerFuncArgs = [9, 1005], destructors = []\<rparr>, []) =
   ((\<lparr>argsWired = [1007], invokerFuncArgs = [9, 1007], destructors = []\<rparr>,
     [ToWireType 2 7, Invoke 9 [1007], Destructor 55 1007, FromWireType 1016]),
    Inr (Some 1016))"
  "invoke (example_invoker True) 0 [7] (a, []) =
   ((a, [ToWireType 2 7, Invoke 9 [1007], Destructor 55 1007, FromWireType 1016]),
    Inr (Some 1016))"
  by (simp_all add: example_invoker_def invoke_defs)

lemma reentrant_call:
  "invoke (reentrant_invoker False) 0 [5] (new_arrays (reentrant_invoker False), []) =
   ((\<lparr>argsWired = [1007], invokerFuncArgs = [9, 1007], destructors = []\<rparr>,
     [ToWireType 2 5, Invoke 9 [1005], ToWireType 2 7, Invoke 9 [1007],
      Destructor 55 1007, FromWireType 1016, Destructor 55 1007, FromWireType 1014]),
    Inr (Some 1014))"
proof -
  have n: "calling_back (example_invoker False) [7] [9, 1005]
      \<lparr>argsWired = [1005], invokerFuncArgs = [9, 1005], destructors = []\<rparr> =
    (\<lparr>argsWired = [1007], invokerFuncArgs = [9, 1007], destructors = []\<rparr>,
     [ToWireType 2 7, Invoke 9 [1007], Destructor 55 1007, FromWireType 1016], Inr 1014)"
    by (simp add: calling_back_def called_back)
  have f: "expectedArgCount (reentrant_invoker False) = 1"
    "dynamicExecution (reentrant_invoker False) = False"
    "cppTargetFunc (reentrant_invoker False) = 9"
    "isClassMethodFunc (reentrant_invoker False) = False"
    "needsDestructorStack (reentrant_invoker False) = False"
    "returns (reentrant_invoker False) = True"
    "argTypes (reentrant_invoker False) = [Some int_type, None, Some string_type]"
    "cppInvokerFunc (reentrant_invoker False) = calling_back (example_invoker False) [7]"
    by (simp_all add: reentrant_invoker_def example_invoker_def)
  show ?thesis
    by (simp add: invoke_def Let_def convert_this_def onDone_def static_destructors.simps
        new_arrays_def f n string_type_def int_type_def)
qed

lemma reentrant_crafted_pointer:
  "craftInvokerFunction dyn 6 ''g'' [Some int_type, None, Some pointer_type] None
     (calling_back (pointer_invoker dyn) [7]) 9 = Inr (reentrant_pointer_invoker dyn)"
  by (simp add: craftInvokerFunction_def reentrant_pointer_invoker_def pointer_invoker_def
      int_type_def pointer_type_def)

lemma called_back_pointer:
  "invoke (pointer_invoker False) 0 [7]
     (\<lparr>argsWired = [2005], invokerFuncArgs = [9, 2005], destructors = [(77, 2005)]\<rparr>, []) =
   ((\<lparr>argsWired = [2007], invokerFuncArgs = [9, 2007], destructors = []\<rparr>,
     [ToWireType 2 7, Invoke 9 [2007], Destructor 77 2007, FromWireType 2016]),
    Inr (Some 2016))"
  "invoke (pointer_invoker True) 0 [7] (a, []) =
   ((a, [ToWireType 2 7, Invoke 9 [2007], Destructor 77 2007, FromWireType 2016]),
    Inr (Some 2016))"
  by (simp_all add: pointer_invoker_def invoke_defs)

lemma reentrant_fields:
  "expectedArgCount (reentrant_invoker dyn) = 1"
  "dynamicExecution (reentrant_invoker dyn) = dyn"
  "cppTargetFunc (reentrant_invoker dyn) = 9"
  "isClassMethodFunc (reentrant_invoker dyn) = False"
  "needsDestructorStack (reentrant_invoker dyn) = False"
  "returns (reentrant_invoker dyn) = True"
  "argTypes (reentrant_invoker dyn) = [Some int_type, None, Some string_type]"
  "cppInvokerFunc (reentrant_invoker dyn) = calling_back (example_invoker dyn) [7]"
  "expectedArgCount (reentrant_pointer_invoker dyn) = 1"
  "dynamicExecution (reentrant_pointer_invoker dyn) = dyn"
  "cppTargetFunc (reentrant_pointer_invoker dyn) = 9"
  "isClassMethodFunc (reentrant_pointer_invoker dyn) = False"
  "needsDestructorStack (reentrant_pointer_invoker dyn) = True"
  "returns (reentrant_pointer_invoker dyn) = True"
  "argTypes (reentrant_pointer_invoker dyn) = [Some int_type, None, Some pointer_type]"
  "cppInvokerFunc (reentrant_pointer_invoker dyn) = calling_back (pointer_invoker dyn) [7]"
  by (simp_all add: reentrant_invoker_def example_invoker_def reentrant_pointer_invoker_def
      pointer_invoker_def)

lemma calls_back:
  "calling_back (example_invoker True) [7] args a =
     (a, [ToWireType 2 7, Invoke 9 [1007], Destructor 55 1007, FromWireType 1016],
      Inr (sum_list args))"
  "calling_back (pointer_invoker True) [7] args a =
     (a, [ToWireType 2 7, Invoke 9 [2007], Destructor 77 2007, FromWireType 2016],
      Inr (sum_list args))"
  "calling_back (pointer_invoker False) [7] args
     \<lparr>argsWired = [2005], invokerFuncArgs = [9, 2005], destructors = [(77, 2005)]\<rparr> =
     (\<lparr>argsWired = [2007], invokerFuncArgs = [9, 2007], destructors = []\<rparr>,
      [ToWireType 2 7, Invoke 9 [2007], Destructor 77 2007, FromWireType 2016],
      Inr (sum_list args))"
  by (simp_all add: calling_back_def called_back called_back_pointer)

lemma reentrant_call_generated:
  "invoke (reentrant_invoker True) 0 [5] (new_arrays (reentrant_invoker True), []) =
   ((\<lparr>argsWired = [0], invokerFuncArgs = [], destructors = []\<rparr>,
     [ToWireType 2 5, Invoke 9 [1005], ToWireType 2 7, Invoke 9 [1007],
      Destructor 55 1007, FromWireType 1016, Destructor 55 1005, FromWireType 1014]),
    Inr (Some 1014))"
  by (simp add: invoke_def Let_def convert_this_def onDone_def static_destructors.simps
      new_arrays_def reentrant_fields calls_back string_type_def int_type_def)

lemma reentrant_pointer_call:
  "invoke (reentrant_pointer_invoker False) 0 [5]
     (new_arrays (reentrant_pointer_invoker False), []) =
   ((\<lparr>argsWired = [2007], invokerFuncArgs = [9, 2007], destructors = []\<rparr>,
     [ToWireType 2 5, Invoke 9 [2005], ToWireType 2 7, Invoke 9 [2007],
      Destructor 77 2007, FromWireType 2016, FromWireType 2014]),
    Inr (Some 2014))"
  by (simp add: invoke_def Let_def convert_this_def onDone_def runDestructors.simps
      new_arrays_def reentrant_fields calls_back pointer_type_def int_type_def)

lemma reentrant_pointer_call_generated:
  "invoke (reentrant_pointer_invoker True) 0 [5]
     (new_arrays (reentrant_pointer_invoker True), []) =
   ((\<lparr>argsWired = [0], invokerFuncArgs = [], destructors = []\<rparr>,
     [ToWireType 2 5, Invoke 9 [2005], ToWireType 2 7, Invoke 9 [2007],
      Destructor 77 2007, FromWireType 2016, Destructor 77 2005, FromWireType 2014]),
    Inr (Some 2014))"
  by (simp add: invoke_def Let_def convert_this_def onDone_def runDestructors.simps
      new_arrays_def reentrant_fields calls_back pointer_type_def int_type_def)

lemma owed_destructors:
  "parameter_destructors (reentrant_invoker dyn) (parameters (reentrant_invoker dyn) 0 [5]) =
     [Destructor 55 1005]"
  "parameter_destructors (reentrant_pointer_invoker dyn)
     (parameters (reentrant_pointer_invoker dyn) 0 [5]) = [Destructor 77 2005]"
  by (simp_all add: parameter_destructors_def parameters_def reentrant_fields
      static_destructor_def wire_value_def queued_by_def string_type_def pointer_type_def)


lemma keeps_arrays_native_sum: "keeps_arrays native_sum"
  by (simp add: keeps_arrays_def native_sum_def)

lemma pointer_call_example:
  "invoke (pointer_invoker False) 0 [5] (new_arrays (pointer_invoker False), []) =
     ((\<lparr>argsWired = [2005], invokerFuncArgs = [9, 2005], destructors = []\<rparr>,
       [ToWireType 2 5, Invoke 9 [2005], Destructor 77 2005, FromWireType 2014]),
      Inr (Some 2014))"
  by (simp add: pointer_invoker_def invoke_defs)

lemma invoke_cleanup_example:
  "keeps_arrays native_sum \<and>
   length (argsWired (new_arrays (pointer_invoker False))) =
     length [Some int_type, None, Some pointer_type] - 2 \<and>
   needsDestructorStack (pointer_invoker False) \<and>
   (\<exists>shared' trace'.
      invoke (pointer_invoker False) 0 [5] (new_arrays (pointer_invoker False), []) =
        ((shared', trace'), Inr (Some 2014)) \<and>
      trace' = [ToWireType 2 5, Invoke 9 [2005], Destructor 77 2005, FromWireType 2014] \<and>
      parameter_destructors (pointer_invoker False) (parameters (pointer_invoker False) 0 [5]) =
        [Destructor 77 2005])"
proof -
  have l: "length (argsWired (new_arrays (pointer_invoker False))) =
     length [Some int_type, None, Some pointer_type] - 2"
    by (simp add: new_arrays_def pointer_invoker_def)
  have n: "needsDestructorStack (pointer_invoker False)" by (simp add: pointer_invoker_def)
  from keeps_arrays_native_sum l
  have a: "False \<or> (keeps_arrays native_sum \<and>
      length (argsWired (new_arrays (pointer_invoker False))) =
        length [Some int_type, None, Some pointer_type] - 2)" by simp
  from invoke_cleanup [OF pointer_crafted a pointer_call_example]
  obtain a0 a' events rv where
    nat: "native_sum (9 # map (wire_value (pointer_invoker False))
            (parameters (pointer_invoker False) 0 [5])) a0 = (a', events, Inr rv)"
    and t: "[ToWireType 2 5, Invoke 9 [2005], Destructor 77 2005, FromWireType 2014] =
      [] @ map (\<lambda>p. ToWireType (fst p) (snd p)) (parameters (pointer_invoker False) 0 [5]) @
      [Invoke 9 (map (wire_value (pointer_invoker False))
          (parameters (pointer_invoker False) 0 [5]))] @ events @
      parameter_destructors (pointer_invoker False) (parameters (pointer_invoker False) 0 [5]) @
      (if returns (pointer_invoker False) then [FromWireType rv] else [])"
    by blast
  from nat have ev: "events = []" by (simp add: native_sum_def)
  have p: "parameters (pointer_invoker False) 0 [5] = [(2, 5)]"
    by (simp add: parameters_def pointer_invoker_def)
  from t ev p have "parameter_destructors (pointer_invoker False)
      (parameters (pointer_invoker False) 0 [5]) = [Destructor 77 2005]"
    by (simp add: pointer_invoker_def split: if_splits)
  with keeps_arrays_native_sum l n pointer_call_example show ?thesis by simp
qed

text \<open>The message of the arity error, without and with code generation.\<close>

lemma arity_error_example:
  "invoke (example_invoker False) 0 [] st =
     (st, Inl (BindingError ''function f called with 0 arguments, expected 1 args!''))"
  "invoke (example_invoker True) 0 [] st =
     (st, Inl (BindingError ''function f called with 6 arguments, expected 1 args!''))"
  by (simp_all add: invoke_def arity_message_def example_invoker_def string_of_digit)

text \<open>
  Claim C5. The arity error comes before any conversion or native call (\<open>invoke_arity\<close>),
  and a call inside which the invoker is not called again runs the destructors of its
  parameters before it converts the return value (\<open>invoke_cleanup\<close>). It fails for an
  invoker built without code generation when the native function calls back and the
  host calls the invoker again: the inner call works on the same arrays. \<open>f(5)\<close>,
  inside which \<open>f(7)\<close> runs, owes the destructor 55 to its wire value 1005; it calls
  it on 1007, the inner call's wire value, which the inner call has destroyed already,
  and never on 1005. With a parameter type that queues its destructor, \<open>g(5)\<close> owes
  the destructor 77 to 2005 and runs no destructor at all. The generated invokers, on
  the same calls, run the destructors owed.
\<close>
theorem invoke_reentrant_call_destructors:
  "craftInvokerFunction False 6 ''f'' [Some int_type, None, Some string_type] None
     (calling_back (example_invoker False) [7]) 9 = Inr (reentrant_invoker False) \<and>
   parameter_destructors (reentrant_invoker False)
     (parameters (reentrant_invoker False) 0 [5]) = [Destructor 55 1005] \<and>
   invoke (reentrant_invoker False) 0 [5] (new_arrays (reentrant_invoker False), []) =
     ((\<lparr>argsWired = [1007], invokerFuncArgs = [9, 1007], destructors = []\<rparr>,
       [ToWireType 2 5, Invoke 9 [1005], ToWireType 2 7, Invoke 9 [1007],
        Destructor 55 1007, FromWireType 1016, Destructor 55 1007, FromWireType 1014]),
      Inr (Some 1014)) \<and>
   invoke (reentrant_invoker True) 0 [5] (new_arrays (reentrant_invoker True), []) =
     ((\<lparr>argsWired = [0], invokerFuncArgs = [], destructors = []\<rparr>,
       [ToWireType 2 5, Invoke 9 [1005], ToWireType 2 7, Invoke 9 [1007],
        Destructor 55 1007, FromWireType 1016, Destructor 55 1005, FromWireType 1014]),
      Inr (Some 1014)) \<and>
   parameter_destructors (reentrant_pointer_invoker False)
     (parameters (reentrant_pointer_invoker False) 0 [5]) = [Destructor 77 2005] \<and>
   invoke (reentrant_pointer_invoker False) 0 [5]
       (new_arrays (reentrant_pointer_invoker False), []) =
     ((\<lparr>argsWired = [2007], invokerFuncArgs = [9, 2007], destructors = []\<rparr>,
       [ToWireType 2 5, Invoke 9 [2005], ToWireType 2 7, Invoke 9 [2007],
        Destructor 77 2007, FromWireType 2016, FromWireType 2014]),
      Inr (Some 2014)) \<and>
   invoke (reentrant_pointer_invoker True) 0 [5]
       (new_arrays (reentrant_pointer_invoker True), []) =
     ((\<lparr>argsWired = [0], invokerFuncArgs = [], destructors = []\<rparr>,
       [ToWireType 2 5, Invoke 9 [2005], ToWireType 2 7, Invoke 9 [2007],
        Destructor 77 2007, FromWireType 2016, Destructor 77 2005, FromWireType 2014]),
      Inr (Some 2014))"
  by (simp only: reentrant_crafted reentrant_call reentrant_call_generated
      reentrant_pointer_call reentrant_pointer_call_generated owed_destructors simp_thms)


end
